theory Spec2Isabelle
  imports Complex_Main "HOL-Library.Char_ord" "HOL-Library.List_Lexorder"
begin

section \<open>Python strings\<close>

text \<open>
  A Python \<open>str\<close> is modelled as a \<^typ>\<open>string\<close>: one \<^typ>\<open>char\<close> stands for one
  code point below 256.  On that range \<open>str.isspace\<close> (used by \<open>str.strip()\<close> and by the
  regular-expression class \<open>\s\<close>) holds for the code points 9..13, 28..32, 133 and 160.
\<close>

definition is_space :: "char \<Rightarrow> bool" where
  "is_space c =
     (let n = (of_char c :: nat)
      in (9 \<le> n \<and> n \<le> 13) \<or> (28 \<le> n \<and> n \<le> 32) \<or> n = 133 \<or> n = 160)"

definition lstrip :: "string \<Rightarrow> string" where
  "lstrip s = dropWhile is_space s"

definition rstrip :: "string \<Rightarrow> string" where
  "rstrip s = rev (dropWhile is_space (rev s))"

text \<open>\<open>s.strip()\<close>: leading and trailing white space removed.\<close>

definition strip :: "string \<Rightarrow> string" where
  "strip s = rstrip (lstrip s)"

text \<open>\<open>str.lower\<close> of one code point below 256 (A..Z and the accented capitals).\<close>

definition py_lower :: "char \<Rightarrow> char" where
  "py_lower c =
     (let n = (of_char c :: nat)
      in if (65 \<le> n \<and> n \<le> 90) \<or> (192 \<le> n \<and> n \<le> 222 \<and> n \<noteq> 215)
         then char_of (n + 32) else c)"

definition is_digit :: "char \<Rightarrow> bool" where
  "is_digit c = (let n = (of_char c :: nat) in 48 \<le> n \<and> n \<le> 57)"

text \<open>The class \<open>\w\<close> of \<open>re\<close> on code points below 256: \<open>str.isalnum\<close> or the underscore.\<close>

definition is_word :: "char \<Rightarrow> bool" where
  "is_word c =
     (let n = (of_char c :: nat)
      in (48 \<le> n \<and> n \<le> 57) \<or> (65 \<le> n \<and> n \<le> 90) \<or> n = 95 \<or> (97 \<le> n \<and> n \<le> 122)
         \<or> n = 170 \<or> n = 178 \<or> n = 179 \<or> n = 181 \<or> n = 185 \<or> n = 186
         \<or> (188 \<le> n \<and> n \<le> 190) \<or> (192 \<le> n \<and> n \<le> 214) \<or> (216 \<le> n \<and> n \<le> 246)
         \<or> 248 \<le> n)"

definition newline :: char where
  "newline = CHR 0x0A"


section \<open>The regular expressions of the repository\<close>

text \<open>
  The fragment of Python's \<open>re\<close> that the source uses, with the backtracking order of the
  engine: a greedy repetition tries the longest run first, a lazy one the shortest, an
  optional group is tried before it is skipped.
\<close>

datatype atom =
    Lit char      \<comment> \<open>a literal character\<close>
  | Dot           \<comment> \<open>\<open>.\<close>: any character but the newline\<close>
  | Digit         \<comment> \<open>\<open>[0-9]\<close>\<close>
  | NonWord       \<comment> \<open>\<open>\W\<close>\<close>
  | Space         \<comment> \<open>\<open>\s\<close>\<close>

datatype piece =
    Bol           \<comment> \<open>\<open>^\<close>\<close>
  | One atom
  | Star atom     \<comment> \<open>\<open>a*\<close>\<close>
  | Plus atom     \<comment> \<open>\<open>a+\<close>\<close>
  | Lazy atom     \<comment> \<open>\<open>a*?\<close>\<close>
  | Mark          \<comment> \<open>the opening or closing parenthesis of a capturing group\<close>

datatype item =
    P piece
  | Opt "piece list"   \<comment> \<open>\<open>(?:...)?\<close>\<close>

record flags =
  ignorecase :: bool
  multiline :: bool

definition no_flags :: flags where
  "no_flags = \<lparr>ignorecase = False, multiline = False\<rparr>"

definition atom_ok :: "flags \<Rightarrow> atom \<Rightarrow> char \<Rightarrow> bool" where
  "atom_ok f a x =
     (case a of
        Lit c \<Rightarrow> if ignorecase f then py_lower x = py_lower c else x = c
      | Dot \<Rightarrow> x \<noteq> newline
      | Digit \<Rightarrow> is_digit x
      | NonWord \<Rightarrow> \<not> is_word x
      | Space \<Rightarrow> is_space x)"

text \<open>\<open>^\<close> holds at the start of the text and, under \<open>MULTILINE\<close>, after a newline.\<close>

definition at_bol :: "flags \<Rightarrow> char option \<Rightarrow> bool" where
  "at_bol f prev =
     (case prev of None \<Rightarrow> True | Some c \<Rightarrow> multiline f \<and> c = newline)"

fun psize :: "piece \<Rightarrow> nat" where
  "psize (Plus a) = 3"
| "psize p = 1"

fun isize :: "item \<Rightarrow> nat" where
  "isize (P p) = psize p"
| "isize (Opt g) = Suc (sum_list (map psize g))"

text \<open>
  \<open>rmatch f forbid p prev s\<close> matches the pattern \<open>p\<close> at the head of \<open>s\<close>, where \<open>prev\<close>
  is the character before \<open>s\<close> in the whole text.  It returns the text left at each
  \<open>Mark\<close> and the text left after the match.  \<open>forbid = Some n\<close> refuses a match that
  leaves \<open>n\<close> characters (the engine's \<open>must_advance\<close>: no empty match right after an
  empty match).
\<close>

function rmatch ::
  "flags \<Rightarrow> nat option \<Rightarrow> item list \<Rightarrow> char option \<Rightarrow> string \<Rightarrow> (string list \<times> string) option"
where
  "rmatch f forbid [] prev s =
     (if forbid = Some (length s) then None else Some ([], s))"
| "rmatch f forbid (P Bol # r) prev s =
     (if at_bol f prev then rmatch f forbid r prev s else None)"
| "rmatch f forbid (P Mark # r) prev s =
     (case rmatch f forbid r prev s of
        None \<Rightarrow> None
      | Some (ms, rest) \<Rightarrow> Some (s # ms, rest))"
| "rmatch f forbid (P (One a) # r) prev [] = None"
| "rmatch f forbid (P (One a) # r) prev (x # xs) =
     (if atom_ok f a x then rmatch f forbid r (Some x) xs else None)"
| "rmatch f forbid (P (Plus a) # r) prev s =
     rmatch f forbid (P (One a) # P (Star a) # r) prev s"
| "rmatch f forbid (P (Star a) # r) prev [] = rmatch f forbid r prev []"
| "rmatch f forbid (P (Star a) # r) prev (x # xs) =
     (if atom_ok f a x
      then (case rmatch f forbid (P (Star a) # r) (Some x) xs of
              Some res \<Rightarrow> Some res
            | None \<Rightarrow> rmatch f forbid r prev (x # xs))
      else rmatch f forbid r prev (x # xs))"
| "rmatch f forbid (P (Lazy a) # r) prev [] = rmatch f forbid r prev []"
| "rmatch f forbid (P (Lazy a) # r) prev (x # xs) =
     (case rmatch f forbid r prev (x # xs) of
        Some res \<Rightarrow> Some res
      | None \<Rightarrow> if atom_ok f a x then rmatch f forbid (P (Lazy a) # r) (Some x) xs else None)"
| "rmatch f forbid (Opt g # r) prev s =
     (case rmatch f forbid (map P g @ r) prev s of
        Some res \<Rightarrow> Some res
      | None \<Rightarrow> rmatch f forbid r prev s)"
  by pat_completeness auto
termination
  by (relation "inv_image (less_than <*lex*> less_than)
                  (\<lambda>(f, forbid, p, prev, s). (length s, sum_list (map isize p)))")
     (auto simp: comp_def)

text \<open>\<open>re.search\<close>: the match at the leftmost position that has one.\<close>

fun search_from ::
  "flags \<Rightarrow> item list \<Rightarrow> char option \<Rightarrow> string \<Rightarrow> (string list \<times> string) option"
where
  "search_from f p prev [] = rmatch f None p prev []"
| "search_from f p prev (x # xs) =
     (case rmatch f None p prev (x # xs) of
        Some res \<Rightarrow> Some res
      | None \<Rightarrow> search_from f p (Some x) xs)"

definition re_search :: "flags \<Rightarrow> item list \<Rightarrow> string \<Rightarrow> (string list \<times> string) option" where
  "re_search f p s = search_from f p None s"

text \<open>\<open>m.group(1)\<close> of a pattern with one capturing group: the text between its two marks.\<close>

fun group1 :: "string list \<times> string \<Rightarrow> string" where
  "group1 (a # b # ms, rest) = take (length a - length b) a"
| "group1 (ms, rest) = []"

text \<open>
  \<open>re.sub(p, repl, s)\<close>: every match, found from left to right without overlap, is
  replaced.  After an empty match the engine looks at the same position for a match that
  is not empty (\<open>adv\<close>), and copies one character when there is none.
\<close>

function sub_from ::
  "flags \<Rightarrow> item list \<Rightarrow> string \<Rightarrow> bool \<Rightarrow> char option \<Rightarrow> string \<Rightarrow> string"
where
  "sub_from f p repl adv prev s =
     (case rmatch f (if adv then Some (length s) else None) p prev s of
        Some (ms, rest) \<Rightarrow>
          if length rest < length s
          then repl @ sub_from f p repl False (Some (s ! (length s - length rest - 1))) rest
          else if adv
          then (case s of [] \<Rightarrow> [] | x # xs \<Rightarrow> x # sub_from f p repl False (Some x) xs)
          else repl @ sub_from f p repl True prev s
      | None \<Rightarrow> (case s of [] \<Rightarrow> [] | x # xs \<Rightarrow> x # sub_from f p repl False (Some x) xs))"
  by pat_completeness auto
termination
  by (relation "inv_image (less_than <*lex*> less_than)
                  (\<lambda>(f, p, repl, adv, prev, s). (length s, if adv then 0 else (1::nat)))")
     auto

definition re_sub :: "flags \<Rightarrow> item list \<Rightarrow> string \<Rightarrow> string \<Rightarrow> string" where
  "re_sub f p repl s = sub_from f p repl False None s"

definition lits :: "string \<Rightarrow> item list" where
  "lits s = map (\<lambda>c. P (One (Lit c))) s"


section \<open>LLM evaluation/main.py: clean\_response\<close>

definition prefixes :: "item list list" where
  "prefixes =
     [ P Bol # lits ''Here is the'' @ [P (Lazy Dot)] @ lits ''translation''
         @ [P (Lazy Dot)] @ lits '':'',
       P Bol # lits ''Sure, here is'' @ [P (Lazy Dot)] @ lits '':'',
       P Bol # lits ''Translation:'',
       P Bol # lits ''Below is the translation'' @ [P (Lazy Dot)] @ lits '':'',
       P Bol # lits ''The translation is as follows'' @ [P (Lazy Dot)] @ lits '':'',
       P Bol # lits ''Here is the Urdu translation'' @ [P (Lazy Dot)] @ lits '':'',
       P Bol # lits ''Here is the English translation'' @ [P (Lazy Dot)] @ lits '':'' ]"

definition suffixes :: "item list list" where
  "suffixes =
     [ lits ''Note:'' @ [P (Star Dot)],
       lits ''Please let me know'' @ [P (Star Dot)],
       lits ''I hope this helps'' @ [P (Star Dot)] ]"

text \<open>\<open>flags=re.IGNORECASE | re.MULTILINE\<close>\<close>

definition clean_flags :: flags where
  "clean_flags = \<lparr>ignorecase = True, multiline = True\<rparr>"

text \<open>One turn of either loop: \<open>text = re.sub(p, "", text, flags=...).strip()\<close>.\<close>

definition clean_step :: "string \<Rightarrow> item list \<Rightarrow> string" where
  "clean_step text p = strip (re_sub clean_flags p [] text)"

definition clean_response :: "string \<Rightarrow> string" where
  "clean_response text =
     (if text = [] then []
      else foldl clean_step (foldl clean_step text prefixes) suffixes)"

text \<open>Whether \<open>re.search(p, s, flags=re.IGNORECASE | re.MULTILINE)\<close> finds a match.\<close>

definition matches :: "item list \<Rightarrow> string \<Rightarrow> bool" where
  "matches p s = (case re_search clean_flags p s of None \<Rightarrow> False | Some m \<Rightarrow> True)"

text \<open>The text contains one of the configured leading or trailing phrases.\<close>

definition has_pattern :: "string \<Rightarrow> bool" where
  "has_pattern s = list_ex (\<lambda>p. matches p s) (prefixes @ suffixes)"


section \<open>The hosted-model scripts: rate limiter and retry loops\<close>

text \<open>
  Time is a rational number of seconds (the source uses binary floating point; the
  constants 5.0, 2.0, 60.0, 1.0 and the powers of two are exact in both).  The state of
  one running script: the monotonic clock, the module variable \<open>_last_request_time\<close>,
  and three logs that the source does not keep but its effects define: the times at
  which \<open>wait_for_rate_limit\<close> let a caller through, the number of \<open>generate_content\<close>
  calls made, and the arguments of \<open>time.sleep\<close> in the retry loops.
\<close>

record world =
  clock :: rat
  last_request_time :: rat
  grants :: "rat list"
  calls :: nat
  slept :: "rat list"

text \<open>A script starts with \<open>_last_request_time = 0.0\<close>; \<open>t\<close> is the clock at that moment.\<close>

definition start_world :: "rat \<Rightarrow> world" where
  "start_world t = \<lparr>clock = t, last_request_time = 0, grants = [], calls = 0, slept = []\<rparr>"

definition REQUEST_INTERVAL :: rat where
  "REQUEST_INTERVAL = 5"

definition max_retries :: nat where
  "max_retries = 12"

definition base_backoff :: rat where
  "base_backoff = 2"

text \<open>\<open>time.sleep(d)\<close> lets exactly \<open>d\<close> seconds pass.\<close>

definition sleep :: "rat \<Rightarrow> world \<Rightarrow> world" where
  "sleep d w = w\<lparr>clock := clock w + d\<rparr>"

text \<open>
  \<open>wait_for_rate_limit\<close>, the body under \<open>_request_lock\<close>, run by one thread.  The copy in
  translate\_json\_urdu.py reads \<open>time.monotonic()\<close> once more for the assignment instead
  of reusing \<open>now\<close>; here the clock moves only in \<open>sleep\<close> and in a call, so both copies
  are this function.
\<close>

definition wait_for_rate_limit :: "world \<Rightarrow> world" where
  "wait_for_rate_limit w =
     (let now = clock w;
          elapsed = now - last_request_time w;
          w1 = (if elapsed < REQUEST_INTERVAL then sleep (REQUEST_INTERVAL - elapsed) w else w);
          now1 = clock w1
      in w1\<lparr>last_request_time := now1, grants := grants w1 @ [now1]\<rparr>)"

text \<open>
  The hosted model is outside the repository.  \<open>svc n x\<close> is what the \<open>n\<close>-th call of the
  run (counted from 0) does when it is given the input \<open>x\<close> (the page image or the
  paragraph; the instruction lines of the prompt are the same in every call): either
  \<open>generate_content\<close> or the read of \<open>response.text\<close> raises an exception whose \<open>str\<close> is
  the given message, or \<open>response.text\<close> is the given text; and the seconds the call took.
\<close>

datatype outcome = Raises string | Returns string

type_synonym 'a service = "nat \<Rightarrow> 'a \<Rightarrow> outcome \<times> rat"

definition generate_content :: "'a service \<Rightarrow> 'a \<Rightarrow> world \<Rightarrow> outcome \<times> world" where
  "generate_content svc x w =
     (case svc (calls w) x of
        (r, d) \<Rightarrow> (r, w\<lparr>calls := Suc (calls w), clock := clock w + d\<rparr>))"

text \<open>\<open>min(60.0, base_backoff * (2 ** (attempt - 1)))\<close>\<close>

definition backoff :: "nat \<Rightarrow> rat" where
  "backoff attempt = min 60 (base_backoff * 2 ^ (attempt - 1))"

text \<open>\<open>Please retry in ([0-9]+(?:\.[0-9]+)?)s\<close>\<close>

definition retry_in_pattern :: "item list" where
  "retry_in_pattern =
     lits ''Please retry in ''
       @ [P Mark, P (Plus Digit), Opt [One (Lit CHR ''.''), Plus Digit], P Mark]
       @ lits ''s''"

text \<open>\<open>retry_delay\W+seconds:\s*([0-9]+)\<close>\<close>

definition retry_delay_pattern :: "item list" where
  "retry_delay_pattern =
     lits ''retry_delay'' @ [P (Plus NonWord)] @ lits ''seconds:''
       @ [P (Star Space), P Mark, P (Plus Digit), P Mark]"

text \<open>
  \<open>float(m.group(1))\<close> on a text that matched \<open>[0-9]+(?:\.[0-9]+)?\<close>: the decimal
  numeral is read exactly (Python rounds it to the nearest binary64 value).
\<close>

definition digits_value :: "string \<Rightarrow> nat" where
  "digits_value ds = foldl (\<lambda>acc c. 10 * acc + (of_char c - 48)) 0 ds"

definition float_of :: "string \<Rightarrow> rat" where
  "float_of s =
     (let ip = takeWhile (\<lambda>c. c \<noteq> CHR ''.'') s;
          fp = drop 1 (dropWhile (\<lambda>c. c \<noteq> CHR ''.'') s)
      in of_nat (digits_value ip) + of_nat (digits_value fp) / 10 ^ length fp)"

text \<open>
  ocr\_page.py, the \<open>except\<close> branch of \<open>ocr_with_gemini\<close>: the seconds to sleep after
  the attempt \<open>attempt\<close> raised an exception with the text \<open>err_text\<close>.
\<close>

definition ocr_sleep_seconds :: "string \<Rightarrow> nat \<Rightarrow> rat" where
  "ocr_sleep_seconds err_text attempt =
     (case re_search no_flags retry_in_pattern err_text of
        Some m \<Rightarrow> float_of (group1 m) + 1
      | None \<Rightarrow>
          (case re_search no_flags retry_delay_pattern err_text of
             Some m2 \<Rightarrow> float_of (group1 m2) + 1
           | None \<Rightarrow> backoff attempt))"

text \<open>
  ocr\_page.py, \<open>ocr_with_gemini\<close>: \<open>for attempt in range(1, max_retries + 1)\<close>, from the
  turn \<open>attempt\<close> on.  Whatever \<open>response.text\<close> holds is returned; after the last turn
  the result is the empty string.
\<close>

function ocr_attempts :: "'a service \<Rightarrow> 'a \<Rightarrow> nat \<Rightarrow> world \<Rightarrow> string \<times> world" where
  "ocr_attempts svc img attempt w =
     (if max_retries < attempt then ([], w)
      else
        (case generate_content svc img (wait_for_rate_limit w) of
           (Returns t, w1) \<Rightarrow> (t, w1)
         | (Raises err_text, w1) \<Rightarrow>
             ocr_attempts svc img (Suc attempt)
               (let d = ocr_sleep_seconds err_text attempt
                in (sleep d w1)\<lparr>slept := slept w1 @ [d]\<rparr>)))"
  by pat_completeness auto
termination
  by (relation "measure (\<lambda>(svc, img, attempt, w). Suc max_retries - attempt)") auto

definition ocr_with_gemini :: "'a service \<Rightarrow> 'a \<Rightarrow> world \<Rightarrow> string \<times> world" where
  "ocr_with_gemini svc img w = ocr_attempts svc img 1 w"

text \<open>
  The retry loop of \<open>translate_paragraph\<close> (translate\_json.py) and of
  \<open>translate_to_urdu\<close> (translate\_json\_urdu.py): the two loops differ in the value
  returned after the last turn (\<open>failed\<close>) and in what they print.  A blank response
  goes to the next turn without a sleep; an exception sleeps the capped backoff.
\<close>

function translation_attempts ::
  "string \<Rightarrow> string service \<Rightarrow> string \<Rightarrow> nat \<Rightarrow> world \<Rightarrow> string \<times> world"
where
  "translation_attempts failed svc text attempt w =
     (if max_retries < attempt then (failed, w)
      else
        (case generate_content svc text (wait_for_rate_limit w) of
           (Returns t, w1) \<Rightarrow>
             if strip t \<noteq> [] then (strip t, w1)
             else translation_attempts failed svc text (Suc attempt) w1
         | (Raises err_text, w1) \<Rightarrow>
             translation_attempts failed svc text (Suc attempt)
               (let d = backoff attempt
                in (sleep d w1)\<lparr>slept := slept w1 @ [d]\<rparr>)))"
  by pat_completeness auto
termination
  by (relation "measure (\<lambda>(failed, svc, text, attempt, w). Suc max_retries - attempt)") auto

text \<open>\<open>if not german_text or not german_text.strip(): return ""\<close>\<close>

definition translate_paragraph :: "string service \<Rightarrow> string \<Rightarrow> world \<Rightarrow> string \<times> world" where
  "translate_paragraph svc german_text w =
     (if german_text = [] \<or> strip german_text = [] then ([], w)
      else translation_attempts ''[Translation failed]'' svc german_text 1 w)"

definition translate_to_urdu :: "string service \<Rightarrow> string \<Rightarrow> world \<Rightarrow> string \<times> world" where
  "translate_to_urdu svc english_text w =
     (if english_text = [] \<or> strip english_text = [] then ([], w)
      else translation_attempts ''[Urdu translation failed]'' svc english_text 1 w)"


section \<open>The page-by-page runners of the hosted-model scripts\<close>

text \<open>
  The three persisted document shapes.  A page after OCR is \<open>{page_number, content}\<close>,
  after the first translation \<open>{page_number, german, english}\<close>, after the second
  \<open>{page_number, german, english, urdu}\<close>.
\<close>

record page =
  page_number :: nat

record ocr_page = page +
  content :: string

record tr_page = page +
  german :: string
  english :: string

record ur_page = tr_page +
  urdu :: string

record 'p document =
  total_pages :: nat
  pages :: "'p list"

text \<open>
  The content of a file is the value that \<open>json.dump\<close> serialises, which determines its
  bytes.  A write replaces the file (\<open>open(output_path, 'w')\<close>).
\<close>

datatype json_file =
    Ocr_json "ocr_page document"
  | Translated_json "tr_page document"
  | Urdu_json "ur_page document"

type_synonym disk = "string \<rightharpoonup> json_file"





text \<open>
  translate\_json.py, \<open>translate_json_file\<close>: one turn of
  \<open>for page in data["document"]["pages"]\<close>.  The function opens \<open>input_path\<close> only, to
  read \<open>data\<close>; the model takes the parsed document.
\<close>

definition translate_page_step ::
  "string service \<Rightarrow> string \<Rightarrow> tr_page document \<times> world \<times> disk \<Rightarrow> ocr_page
   \<Rightarrow> tr_page document \<times> world \<times> disk"
where
  "translate_page_step svc output_path st page =
     (case st of (translations, w, d) \<Rightarrow>
      case translate_paragraph svc (content page) w of (english_text, w1) \<Rightarrow>
        (let translated_page =
               \<lparr>page_number = page_number page, german = content page,
                english = english_text\<rparr>;
             translations1 = translations\<lparr>pages := pages translations @ [translated_page]\<rparr>
         in (translations1, w1, d(output_path \<mapsto> Translated_json translations1))))"

definition translate_start :: "ocr_page document \<Rightarrow> tr_page document" where
  "translate_start data = \<lparr>total_pages = total_pages data, pages = []\<rparr>"

definition translate_json_file ::
  "string service \<Rightarrow> ocr_page document \<Rightarrow> string \<Rightarrow> world \<times> disk
   \<Rightarrow> tr_page document \<times> world \<times> disk"
where
  "translate_json_file svc data output_path st =
     foldl (translate_page_step svc output_path) (translate_start data, fst st, snd st)
       (pages data)"

text \<open>translate\_json\_urdu.py, \<open>translate_json_file\<close>.\<close>

definition urdu_page_step ::
  "string service \<Rightarrow> string \<Rightarrow> ur_page document \<times> world \<times> disk \<Rightarrow> tr_page
   \<Rightarrow> ur_page document \<times> world \<times> disk"
where
  "urdu_page_step svc output_path st page =
     (case st of (urdu_translations, w, d) \<Rightarrow>
      case translate_to_urdu svc (english page) w of (urdu_text, w1) \<Rightarrow>
        (let translated_page =
               \<lparr>page_number = page_number page, german = german page,
                english = english page, urdu = urdu_text\<rparr>;
             urdu_translations1 =
               urdu_translations\<lparr>pages := pages urdu_translations @ [translated_page]\<rparr>
         in (urdu_translations1, w1, d(output_path \<mapsto> Urdu_json urdu_translations1))))"

definition urdu_start :: "tr_page document \<Rightarrow> ur_page document" where
  "urdu_start data = \<lparr>total_pages = total_pages data, pages = []\<rparr>"

definition translate_json_file_urdu ::
  "string service \<Rightarrow> tr_page document \<Rightarrow> string \<Rightarrow> world \<times> disk
   \<Rightarrow> ur_page document \<times> world \<times> disk"
where
  "translate_json_file_urdu svc data output_path st =
     foldl (urdu_page_step svc output_path) (urdu_start data, fst st, snd st) (pages data)"


section \<open>LLM evaluation/main.py: the local-model pipeline\<close>

subsection \<open>Parsed JSON and the Python operations on it\<close>

text \<open>
  What \<open>json.load\<close> returns.  A \<open>dict\<close> is an association list in insertion order with
  distinct keys.
\<close>

datatype json =
    JNull
  | JBool bool
  | JInt int
  | JFloat rat
  | JStr string
  | JArr "json list"
  | JObj "(string \<times> json) list"

function str_nat :: "nat \<Rightarrow> string" where
  "str_nat n =
     (if n < 10 then [char_of (48 + n)] else str_nat (n div 10) @ [char_of (48 + n mod 10)])"
  by pat_completeness auto
termination
  by (relation "measure (\<lambda>n. n)") auto

definition str_int :: "int \<Rightarrow> string" where
  "str_int i = (if i < 0 then CHR ''-'' # str_nat (nat (- i)) else str_nat (nat i))"

text \<open>
  \<open>str(v)\<close>.  The text of a float, a list or a dict is made by Python's built-in
  formatting, which is not part of the repository: it is the parameter \<open>repr\<close>.
\<close>

definition str_of :: "(json \<Rightarrow> string) \<Rightarrow> json \<Rightarrow> string" where
  "str_of repr v =
     (case v of
        JStr s \<Rightarrow> s
      | JInt i \<Rightarrow> str_int i
      | JBool b \<Rightarrow> (if b then ''True'' else ''False'')
      | JNull \<Rightarrow> ''None''
      | _ \<Rightarrow> repr v)"

fun starts_with :: "string \<Rightarrow> string \<Rightarrow> bool" where
  "starts_with [] s = True"
| "starts_with (k # ks) [] = False"
| "starts_with (k # ks) (c # cs) = (k = c \<and> starts_with ks cs)"

definition ends_with :: "string \<Rightarrow> string \<Rightarrow> bool" where
  "ends_with k s = starts_with (rev k) (rev s)"

fun contains_str :: "string \<Rightarrow> string \<Rightarrow> bool" where
  "contains_str k [] = starts_with k []"
| "contains_str k (c # cs) = (starts_with k (c # cs) \<or> contains_str k cs)"

text \<open>
  \<open>key in v\<close> for a string \<open>key\<close>: a key of a dict, an element of a list, a substring of
  a string; \<open>None\<close> is the \<open>TypeError\<close> of the other values.
\<close>

definition py_in :: "string \<Rightarrow> json \<Rightarrow> bool option" where
  "py_in key v =
     (case v of
        JObj kvs \<Rightarrow> Some (key \<in> set (map fst kvs))
      | JArr xs \<Rightarrow> Some (JStr key \<in> set xs)
      | JStr s \<Rightarrow> Some (contains_str key s)
      | _ \<Rightarrow> None)"

text \<open>\<open>v[key]\<close> for a string \<open>key\<close>; \<open>None\<close> is the \<open>KeyError\<close> or \<open>TypeError\<close>.\<close>

definition py_getitem :: "json \<Rightarrow> string \<Rightarrow> json option" where
  "py_getitem v key = (case v of JObj kvs \<Rightarrow> map_of kvs key | _ \<Rightarrow> None)"

text \<open>\<open>for item in v\<close>: the elements of a list, the keys of a dict, the characters of a string.\<close>

definition py_iter :: "json \<Rightarrow> json list option" where
  "py_iter v =
     (case v of
        JArr xs \<Rightarrow> Some xs
      | JObj kvs \<Rightarrow> Some (map (\<lambda>kv. JStr (fst kv)) kvs)
      | JStr s \<Rightarrow> Some (map (\<lambda>c. JStr [c]) s)
      | _ \<Rightarrow> None)"

subsection \<open>extract\_text\_from\_json\<close>

text \<open>
  Case A, \<open>for item in data['document']['pages']: if 'content' in item:
  text_segments.append(str(item['content']))\<close>.  \<open>None\<close>: an exception was raised.
\<close>

fun collect_pages :: "(json \<Rightarrow> string) \<Rightarrow> json list \<Rightarrow> string list option" where
  "collect_pages repr [] = Some []"
| "collect_pages repr (item # rest) =
     (case py_in ''content'' item of
        None \<Rightarrow> None
      | Some False \<Rightarrow> collect_pages repr rest
      | Some True \<Rightarrow>
          (case py_getitem item ''content'' of
             None \<Rightarrow> None
           | Some v \<Rightarrow>
               (case collect_pages repr rest of
                  None \<Rightarrow> None
                | Some segs \<Rightarrow> Some (str_of repr v # segs))))"

text \<open>Case B, the loop over \<open>data['content']\<close>.\<close>

fun collect_content :: "(json \<Rightarrow> string) \<Rightarrow> json list \<Rightarrow> string list" where
  "collect_content repr [] = []"
| "collect_content repr (JObj kvs # rest) =
     (case map_of kvs ''content'' of
        Some v \<Rightarrow> str_of repr v # collect_content repr rest
      | None \<Rightarrow> collect_content repr rest)"
| "collect_content repr (JStr s # rest) = s # collect_content repr rest"
| "collect_content repr (item # rest) = collect_content repr rest"

text \<open>Case C, \<open>for key in sorted(data.keys())\<close>.\<close>

definition reserved_keys :: "string list" where
  "reserved_keys = [''total_pages'', ''content'', ''document'', ''metadata'']"

definition collect_keys :: "(json \<Rightarrow> string) \<Rightarrow> (string \<times> json) list \<Rightarrow> string list" where
  "collect_keys repr kvs =
     concat (map (\<lambda>key. if key \<in> set reserved_keys then []
                        else (case map_of kvs key of
                                Some v \<Rightarrow> [str_of repr v]
                              | None \<Rightarrow> []))
                 (sort (map fst kvs)))"

text \<open>Cases B and C, for a dict that is not a document with pages.\<close>

definition content_or_keys :: "(json \<Rightarrow> string) \<Rightarrow> (string \<times> json) list \<Rightarrow> string list" where
  "content_or_keys repr kvs =
     (case map_of kvs ''content'' of
        Some (JArr items) \<Rightarrow> collect_content repr items
      | _ \<Rightarrow> collect_keys repr kvs)"

text \<open>The body of the \<open>try\<close> after \<open>json.load\<close>; \<open>None\<close>: an exception was raised.\<close>

definition text_segments :: "(json \<Rightarrow> string) \<Rightarrow> json \<Rightarrow> string list option" where
  "text_segments repr data =
     (case data of
        JObj kvs \<Rightarrow>
          (case map_of kvs ''document'' of
             None \<Rightarrow> Some (content_or_keys repr kvs)
           | Some doc \<Rightarrow>
               (case py_in ''pages'' doc of
                  None \<Rightarrow> None
                | Some False \<Rightarrow> Some (content_or_keys repr kvs)
                | Some True \<Rightarrow>
                    (case py_getitem doc ''pages'' of
                       None \<Rightarrow> None
                     | Some ps \<Rightarrow>
                         (case py_iter ps of
                            None \<Rightarrow> None
                          | Some items \<Rightarrow> collect_pages repr items))))
      | JArr xs \<Rightarrow> Some (map (str_of repr) xs)
      | _ \<Rightarrow> Some [str_of repr data])"

text \<open>
  \<open>extract_text_from_json\<close>, on what \<open>json.load\<close> gives for the file (\<open>None\<close> when the
  file cannot be read or parsed): every exception ends in \<open>return []\<close>.
\<close>

definition extract_text_from_json :: "(json \<Rightarrow> string) \<Rightarrow> json option \<Rightarrow> string list" where
  "extract_text_from_json repr loaded =
     (case loaded of
        None \<Rightarrow> []
      | Some data \<Rightarrow> (case text_segments repr data of None \<Rightarrow> [] | Some segs \<Rightarrow> segs))"

subsection \<open>translate\_segment and the loop of main\<close>

text \<open>
  The local endpoint is outside the repository: \<open>lsvc n text\<close> is what the \<open>n\<close>-th
  request of the run does for the source text \<open>text\<close>: \<open>Failed\<close> when anything in the
  \<open>try\<close> of \<open>translate_segment\<close> raises, \<open>Response raw\<close> when the field \<open>response\<close> of the
  answer is \<open>raw\<close> (the empty string when the field is absent).
\<close>

datatype local_reply = Failed | Response string

type_synonym local_service = "nat \<Rightarrow> string \<Rightarrow> local_reply"

text \<open>The result folder (file name to text) and the number of requests made.\<close>

record local_state =
  outputs :: "string \<rightharpoonup> string"
  requests :: nat

definition translate_segment ::
  "local_service \<Rightarrow> string \<Rightarrow> local_state \<Rightarrow> string option \<times> local_state"
where
  "translate_segment lsvc text st =
     (case lsvc (requests st) text of
        Failed \<Rightarrow> (None, st\<lparr>requests := Suc (requests st)\<rparr>)
      | Response raw_text \<Rightarrow> (Some (clean_response raw_text), st\<lparr>requests := Suc (requests st)\<rparr>))"

text \<open>\<open>with open(output_path, 'a') as f: f.write(text)\<close>\<close>

definition append_file :: "string \<Rightarrow> string \<Rightarrow> local_state \<Rightarrow> local_state" where
  "append_file path text st =
     st\<lparr>outputs := (outputs st)(path \<mapsto> (case outputs st path of None \<Rightarrow> [] | Some old \<Rightarrow> old) @ text)\<rparr>"

datatype status = Completed | Exited

text \<open>
  \<open>for i, segment in enumerate(segments)\<close>: a translation that is not empty is
  appended, an empty one is skipped, \<open>None\<close> ends the process (\<open>sys.exit()\<close>).
\<close>

fun translate_segments ::
  "local_service \<Rightarrow> string \<Rightarrow> (nat \<times> string) list \<Rightarrow> local_state \<Rightarrow> status \<times> local_state"
where
  "translate_segments lsvc output_path [] st = (Completed, st)"
| "translate_segments lsvc output_path ((i, segment) # rest) st =
     (case translate_segment lsvc segment st of
        (None, st1) \<Rightarrow> (Exited, st1)
      | (Some translation, st1) \<Rightarrow>
          if translation \<noteq> []
          then translate_segments lsvc output_path rest
                 (append_file output_path
                    (''--- Page '' @ str_nat (i + 1) @ '' ---'' @ [newline] @ translation
                       @ [newline, newline]) st1)
          else translate_segments lsvc output_path rest st1)"

text \<open>\<open>s.replace(old, new)\<close>\<close>

function replace :: "string \<Rightarrow> string \<Rightarrow> string \<Rightarrow> string" where
  "replace old new s =
     (if old = [] then new @ concat (map (\<lambda>c. c # new) s)
      else if starts_with old s then new @ replace old new (drop (length old) s)
      else (case s of [] \<Rightarrow> [] | c # cs \<Rightarrow> c # replace old new cs))"
  by pat_completeness auto
termination
  by (relation "measure (\<lambda>(old, new, s). length s)") (auto elim: starts_with.elims)

definition enumerate0 :: "'a list \<Rightarrow> (nat \<times> 'a) list" where
  "enumerate0 xs = zip [0 ..< length xs] xs"

text \<open>
  \<open>for filename in files\<close> of \<open>main\<close>, for the chosen model profile with the given
  \<open>file_suffix\<close>.  A file of the data folder is its name and what \<open>json.load\<close> gives for it.
\<close>

fun process_files ::
  "local_service \<Rightarrow> (json \<Rightarrow> string) \<Rightarrow> string \<Rightarrow> (string \<times> json option) list \<Rightarrow> local_state
   \<Rightarrow> status \<times> local_state"
where
  "process_files lsvc repr file_suffix [] st = (Completed, st)"
| "process_files lsvc repr file_suffix ((filename, loaded) # rest) st =
     (let output_path = replace ''.json'' (file_suffix @ ''.txt'') filename
      in if outputs st output_path \<noteq> None
         then process_files lsvc repr file_suffix rest st
         else
           (let segments = extract_text_from_json repr loaded
            in if segments = [] then process_files lsvc repr file_suffix rest st
               else
                 (case translate_segments lsvc output_path (enumerate0 segments)
                         (st\<lparr>outputs := (outputs st)(output_path \<mapsto> [])\<rparr>) of
                    (Exited, st1) \<Rightarrow> (Exited, st1)
                  | (Completed, st1) \<Rightarrow> process_files lsvc repr file_suffix rest st1)))"

text \<open>\<open>files = [f for f in os.listdir(data_folder) if f.endswith('.json')]\<close> and the loop.\<close>

definition run_batch ::
  "local_service \<Rightarrow> (json \<Rightarrow> string) \<Rightarrow> string \<Rightarrow> (string \<times> json option) list \<Rightarrow> local_state
   \<Rightarrow> status \<times> local_state"
where
  "run_batch lsvc repr file_suffix listing st =
     process_files lsvc repr file_suffix
       (filter (\<lambda>f. ends_with ''.json'' (fst f)) listing) st"


section \<open>Vocabulary for statements about the retry loops\<close>

text \<open>The attempt raised an exception; the text of that exception.\<close>

definition raises :: "outcome \<Rightarrow> bool" where
  "raises r = (case r of Raises e \<Rightarrow> True | Returns t \<Rightarrow> False)"

definition message :: "outcome \<Rightarrow> string" where
  "message r = (case r of Raises e \<Rightarrow> e | Returns t \<Rightarrow> [])"

text \<open>For the translation loops a blank response fails as well.\<close>

definition fails :: "outcome \<Rightarrow> bool" where
  "fails r = (case r of Raises e \<Rightarrow> True | Returns t \<Rightarrow> strip t = [])"

text \<open>
  A stand-in for the hosted model: the first calls of the run get the listed replies,
  every later call gets \<open>last_reply\<close>.
\<close>

definition scripted :: "(outcome \<times> rat) list \<Rightarrow> outcome \<times> rat \<Rightarrow> 'a service" where
  "scripted replies last_reply = (\<lambda>n x. if n < length replies then replies ! n else last_reply)"


section \<open>Vocabulary for statements about the page loops\<close>


definition translate_after ::
  "nat \<Rightarrow> string service \<Rightarrow> ocr_page document \<Rightarrow> string \<Rightarrow> world \<times> disk
   \<Rightarrow> tr_page document \<times> world \<times> disk"
where
  "translate_after k svc data output_path st =
     foldl (translate_page_step svc output_path) (translate_start data, fst st, snd st)
       (take k (pages data))"

definition urdu_after ::
  "nat \<Rightarrow> string service \<Rightarrow> tr_page document \<Rightarrow> string \<Rightarrow> world \<times> disk
   \<Rightarrow> ur_page document \<times> world \<times> disk"
where
  "urdu_after k svc data output_path st =
     foldl (urdu_page_step svc output_path) (urdu_start data, fst st, snd st)
       (take k (pages data))"

text \<open>1 for a paragraph that the translation functions send to the model, 0 for a blank one.\<close>

definition nonblank :: "string \<Rightarrow> nat" where
  "nonblank s = (if strip s = [] then 0 else 1)"

text \<open>Two documents of five pages, to instantiate statements.\<close>

definition five_pages :: "ocr_page document" where
  "five_pages =
     \<lparr>total_pages = 5,
      pages = [\<lparr>page_number = 1, content = ''Seite 1''\<rparr>,
               \<lparr>page_number = 2, content = ''Seite 2''\<rparr>,
               \<lparr>page_number = 3, content = ''Seite 3''\<rparr>,
               \<lparr>page_number = 4, content = ''Seite 4''\<rparr>,
               \<lparr>page_number = 5, content = ''Seite 5''\<rparr>]\<rparr>"

definition five_translated :: "tr_page document" where
  "five_translated =
     \<lparr>total_pages = 5,
      pages = [\<lparr>page_number = 1, german = ''Seite 1'', english = ''Page 1''\<rparr>,
               \<lparr>page_number = 2, german = ''Seite 2'', english = ''Page 2''\<rparr>,
               \<lparr>page_number = 3, german = ''Seite 3'', english = ''Page 3''\<rparr>,
               \<lparr>page_number = 4, german = ''Seite 4'', english = ''Page 4''\<rparr>,
               \<lparr>page_number = 5, german = ''Seite 5'', english = ''Page 5''\<rparr>]\<rparr>"


text \<open>A disk without files; the translated pages that a file holds.\<close>

definition empty_disk :: disk where
  "empty_disk = Map.empty"




text \<open>
  A stand-in for the local endpoint, and inputs to instantiate statements: a formatting
  of containers, the state at the start of a batch, a data folder.
\<close>

definition local_scripted :: "local_reply list \<Rightarrow> local_reply \<Rightarrow> local_service" where
  "local_scripted replies last_reply =
     (\<lambda>n x. if n < length replies then replies ! n else last_reply)"

definition opaque_repr :: "json \<Rightarrow> string" where
  "opaque_repr v = ''<value>''"

definition local_start :: local_state where
  "local_start = \<lparr>outputs = Map.empty, requests = 0\<rparr>"

definition two_files :: "(string \<times> json option) list" where
  "two_files =
     [(''a.json'', Some (JArr [JStr ''Seite 1'', JStr ''Seite 2''])),
      (''notes.txt'', None),
      (''b.json'', Some (JArr [JStr ''Seite 3'']))]"


section \<open>Properties of strip and of substitution\<close>

lemma rstrip_decomp: "s = rstrip s @ rev (takeWhile is_space (rev s))"
proof -
  have "rev (takeWhile is_space (rev s) @ dropWhile is_space (rev s)) = s"
    by (simp only: takeWhile_dropWhile_id rev_rev_ident)
  then show ?thesis by (simp only: rstrip_def rev_append)
qed

lemma lstrip_strip: "lstrip (strip s) = strip s"
proof (cases "strip s")
  case Nil
  then show ?thesis by (simp add: lstrip_def)
next
  case (Cons c cs)
  define u where "u = lstrip s"
  have r: "rstrip u = c # cs" using Cons by (simp add: strip_def u_def)
  have "u = (c # cs) @ rev (takeWhile is_space (rev u))"
    using rstrip_decomp [of u] r by simp
  then have u: "u \<noteq> []" and h: "hd u = c"
    by (metis Nil_is_append_conv list.simps(3), metis append_Cons list.sel(1))
  have "\<not> is_space (hd u)" using u unfolding u_def lstrip_def by (rule hd_dropWhile)
  then have "\<not> is_space c" using h by simp
  then show ?thesis using Cons by (simp add: lstrip_def)
qed

lemma rstrip_strip: "rstrip (strip s) = strip s"
  by (simp add: strip_def rstrip_def)

lemma strip_idem: "strip (strip s) = strip s"
proof -
  have "strip (strip s) = rstrip (lstrip (strip s))" by (simp add: strip_def)
  also have "\<dots> = rstrip (strip s)" by (simp only: lstrip_strip)
  also have "\<dots> = strip s" by (rule rstrip_strip)
  finally show ?thesis .
qed

lemma strip_Nil: "strip [] = []"
  by (simp add: strip_def lstrip_def rstrip_def)

lemma strip_blank: "list_all is_space s \<Longrightarrow> strip s = []"
proof -
  assume "list_all is_space s"
  then have "dropWhile is_space s = []"
    unfolding dropWhile_eq_Nil_conv list_all_iff .
  then show ?thesis by (simp only: strip_def lstrip_def rstrip_def rev.simps dropWhile.simps)
qed

lemma sub_from_no_match:
  "search_from f p prev s = None \<Longrightarrow> sub_from f p repl False prev s = s"
proof (induction s arbitrary: prev)
  case Nil
  then show ?case by (subst sub_from.simps) simp
next
  case (Cons x xs)
  from Cons.prems have m: "rmatch f None p prev (x # xs) = None"
    and s: "search_from f p (Some x) xs = None"
    by (auto split: option.splits)
  have "sub_from f p repl False (Some x) xs = xs" using s by (rule Cons.IH)
  then show ?case using m by (subst sub_from.simps) simp
qed

lemma re_sub_no_match: "re_search f p s = None \<Longrightarrow> re_sub f p repl s = s"
  unfolding re_search_def re_sub_def by (rule sub_from_no_match)


section \<open>clean\_response on texts without the configured phrases\<close>

lemma clean_step_no_match: "\<not> matches p t \<Longrightarrow> clean_step t p = strip t"
  by (simp add: clean_step_def matches_def re_sub_no_match split: option.splits)

lemma foldl_clean_step_fixed:
  "list_all (\<lambda>p. \<not> matches p t) ps \<Longrightarrow> strip t = t \<Longrightarrow> foldl clean_step t ps = t"
  by (induction ps) (simp_all add: clean_step_no_match)

lemma foldl_clean_step_first:
  "ps \<noteq> [] \<Longrightarrow> list_all (\<lambda>p. \<not> matches p x) ps \<Longrightarrow>
   list_all (\<lambda>p. \<not> matches p (strip x)) ps \<Longrightarrow> foldl clean_step x ps = strip x"
  by (cases ps) (simp_all add: clean_step_no_match foldl_clean_step_fixed strip_idem)

lemma has_pattern_iff:
  "\<not> has_pattern s \<longleftrightarrow>
     list_all (\<lambda>p. \<not> matches p s) prefixes \<and> list_all (\<lambda>p. \<not> matches p s) suffixes"
  unfolding has_pattern_def list_ex_iff list_all_iff set_append by blast

lemma prefixes_not_Nil: "prefixes \<noteq> []"
  by (simp add: prefixes_def)

lemma suffixes_snoc: "\<exists>p ps. suffixes = ps @ [p]"
  unfolding suffixes_def by (metis append_Cons append_Nil)

lemma clean_response_plain:
  assumes "\<not> has_pattern x" and "\<not> has_pattern (strip x)"
  shows "clean_response x = strip x"
proof (cases "x = []")
  case True
  then show ?thesis by (simp add: clean_response_def strip_Nil)
next
  case False
  have ax: "list_all (\<lambda>p. \<not> matches p x) prefixes"
    using assms(1) by (simp add: has_pattern_iff)
  have as: "list_all (\<lambda>p. \<not> matches p (strip x)) prefixes"
    and bs: "list_all (\<lambda>p. \<not> matches p (strip x)) suffixes"
    using assms(2) by (simp_all add: has_pattern_iff)
  have "foldl clean_step x prefixes = strip x"
    using prefixes_not_Nil ax as by (rule foldl_clean_step_first)
  then show ?thesis
    using False bs by (simp add: clean_response_def foldl_clean_step_fixed strip_idem)
qed

lemma strip_clean_step: "strip (clean_step t p) = clean_step t p"
  by (simp add: clean_step_def strip_idem)

lemma strip_clean_response: "strip (clean_response x) = clean_response x"
proof -
  obtain p ps where pp: "suffixes = ps @ [p]" using suffixes_snoc by blast
  show ?thesis
    by (simp add: clean_response_def pp strip_clean_step strip_Nil)
qed

text \<open>
  C8, as stated, fails: the text \<open>" a"\<close> contains none of the phrases, and
  \<open>clean_response\<close> returns \<open>"a"\<close>, because every turn of its loops ends in \<open>.strip()\<close>.
  The stripping can also bring a phrase to the start of a line: \<open>"  Translation: foo"\<close>
  contains no match of \<open>^Translation:\<close>, its stripped text does, and the result is
  \<open>"foo"\<close>.
\<close>

theorem clean_response_unchanged_counterexample:
  "\<not> has_pattern '' a'' \<and> clean_response '' a'' \<noteq> '' a''
   \<and> \<not> has_pattern ''  Translation: foo''
   \<and> clean_response ''  Translation: foo'' = ''foo''
   \<and> strip ''  Translation: foo'' = ''Translation: foo''"
  by code_simp

text \<open>
  C8, amended: for every text \<open>x\<close> such that neither \<open>x\<close> nor \<open>x.strip()\<close> contains a
  match of one of the configured leading-phrase or trailing-phrase patterns,
  \<open>clean_response\<close> returns \<open>x.strip()\<close>.
\<close>

theorem clean_response_no_pattern:
  "\<not> has_pattern x \<Longrightarrow> \<not> has_pattern (strip x) \<Longrightarrow> clean_response x = strip x"
  by (rule clean_response_plain)

theorem clean_response_no_pattern_witness:
  "\<not> has_pattern '' Guten Tag '' \<and> \<not> has_pattern (strip '' Guten Tag '')
   \<and> clean_response '' Guten Tag '' = strip '' Guten Tag ''"
proof -
  have h1: "\<not> has_pattern '' Guten Tag ''" by code_simp
  have h2: "\<not> has_pattern (strip '' Guten Tag '')" by code_simp
  show ?thesis using h1 h2 clean_response_no_pattern [OF h1 h2] by simp
qed

text \<open>
  C9, as stated, fails: each pattern is applied once, at the matches of the text as it
  is at that turn, so cleaning \<open>"Translation:Translation: foo"\<close> leaves
  \<open>"Translation: foo"\<close>, which a second cleaning turns into \<open>"foo"\<close>.
\<close>

theorem clean_response_idempotent_counterexample:
  "clean_response (clean_response ''Translation:Translation: foo'')
     \<noteq> clean_response ''Translation:Translation: foo''"
  by code_simp

text \<open>
  C9, amended: for every text \<open>x\<close> whose cleaned text \<open>clean_response(x)\<close> contains no
  match of a configured pattern, \<open>clean_response(clean_response(x))\<close> equals
  \<open>clean_response(x)\<close>.
\<close>

theorem clean_response_idempotent_when_clean:
  "\<not> has_pattern (clean_response x) \<Longrightarrow> clean_response (clean_response x) = clean_response x"
  using clean_response_plain [of "clean_response x"] by (simp add: strip_clean_response)

theorem clean_response_idempotent_when_clean_witness:
  "\<not> has_pattern (clean_response ''Translation: foo'')
   \<and> clean_response (clean_response ''Translation: foo'') = clean_response ''Translation: foo''"
proof -
  have h: "\<not> has_pattern (clean_response ''Translation: foo'')" by code_simp
  show ?thesis using h clean_response_idempotent_when_clean [OF h] by simp
qed


section \<open>extract\_text\_from\_json on the four known shapes\<close>

text \<open>
  C7: \<open>{"document":{"pages":[{"content":"a"},{"content":"b"}]}}\<close> yields \<open>["a","b"]\<close>;
  \<open>{"content":["x","y"]}\<close> yields \<open>["x","y"]\<close>; \<open>{"p1":"a","p2":"b","total_pages":2}\<close>
  yields \<open>["a","b"]\<close> (keys in sorted order, whatever their order in the file, reserved
  keys left out); the list \<open>[1,2]\<close> yields \<open>["1","2"]\<close>.
\<close>

theorem extract_text_from_json_shapes:
  "extract_text_from_json repr
     (Some (JObj [(''document'',
        JObj [(''pages'', JArr [JObj [(''content'', JStr ''a'')],
                                 JObj [(''content'', JStr ''b'')]])])]))
     = [''a'', ''b'']
   \<and> extract_text_from_json repr (Some (JObj [(''content'', JArr [JStr ''x'', JStr ''y''])]))
     = [''x'', ''y'']
   \<and> extract_text_from_json repr
       (Some (JObj [(''p1'', JStr ''a''), (''p2'', JStr ''b''), (''total_pages'', JInt 2)]))
     = [''a'', ''b'']
   \<and> extract_text_from_json repr
       (Some (JObj [(''p2'', JStr ''b''), (''total_pages'', JInt 2), (''p1'', JStr ''a'')]))
     = [''a'', ''b'']
   \<and> extract_text_from_json repr (Some (JArr [JInt 1, JInt 2])) = [''1'', ''2'']"
  by code_simp


section \<open>Blank input to the translation functions\<close>

text \<open>
  C10: for a text that is empty or consists of white space only, \<open>translate_paragraph\<close>
  and \<open>translate_to_urdu\<close> return the empty string and leave the state of the script as
  it was: no call of the model, no pass through the rate limiter.
\<close>

theorem blank_input_no_call:
  "list_all is_space text \<Longrightarrow>
     translate_paragraph svc text w = ([], w) \<and> translate_to_urdu svc text w = ([], w)"
  by (simp add: translate_paragraph_def translate_to_urdu_def strip_blank)

theorem blank_input_no_call_witness:
  "list_all is_space [CHR '' '', newline, CHR '' '']
   \<and> translate_paragraph (\<lambda>n x. (Returns ''Hello'', 1)) [CHR '' '', newline, CHR '' '']
       (start_world 100) = ([], start_world 100)
   \<and> translate_to_urdu (\<lambda>n x. (Returns ''Hello'', 1)) [CHR '' '', newline, CHR '' '']
       (start_world 100) = ([], start_world 100)"
proof -
  have h: "list_all is_space [CHR '' '', newline, CHR '' '']" by code_simp
  show ?thesis
    using h blank_input_no_call [OF h, of "\<lambda>n x. (Returns ''Hello'', 1)" "start_world 100"]
    by simp
qed


section \<open>The rate limiter, run by one thread\<close>

text \<open>
  One pass through \<open>wait_for_rate_limit\<close> moves \<open>_last_request_time\<close> forward by at
  least \<open>REQUEST_INTERVAL\<close>, logs that time as the grant, and makes no call.
\<close>

lemma wait_for_rate_limit_gap:
  "last_request_time w + REQUEST_INTERVAL \<le> last_request_time (wait_for_rate_limit w)
   \<and> grants (wait_for_rate_limit w) = grants w @ [last_request_time (wait_for_rate_limit w)]
   \<and> calls (wait_for_rate_limit w) = calls w"
  by (simp add: wait_for_rate_limit_def sleep_def Let_def)


section \<open>The retry loops: number of calls and result\<close>

declare ocr_attempts.simps [simp del] translation_attempts.simps [simp del]

lemma raises_message: "raises r \<Longrightarrow> r = Raises (message r)"
  by (cases r) (simp_all add: raises_def message_def)

lemma try_call:
  "generate_content svc x (wait_for_rate_limit w) = (r, w1) \<Longrightarrow>
     r = fst (svc (calls w) x) \<and> calls w1 = Suc (calls w) \<and> slept w1 = slept w"
  by (auto simp: generate_content_def wait_for_rate_limit_def sleep_def Let_def
           split: prod.splits if_splits)

lemma ocr_exhausted: "max_retries < a \<Longrightarrow> ocr_attempts svc img a w = ([], w)"
  by (subst ocr_attempts.simps) simp

lemma ocr_step_return:
  assumes "a \<le> max_retries" and "fst (svc (calls w) img) = Returns t"
  shows "\<exists>w'. ocr_attempts svc img a w = (t, w') \<and> calls w' = Suc (calls w)
              \<and> slept w' = slept w"
proof -
  obtain r w1 where g: "generate_content svc img (wait_for_rate_limit w) = (r, w1)"
    by (cases "generate_content svc img (wait_for_rate_limit w)")
  from try_call [OF g] assms(2) have r: "r = Returns t"
    and c: "calls w1 = Suc (calls w)" and s: "slept w1 = slept w" by simp_all
  have "ocr_attempts svc img a w = (t, w1)"
    using assms(1) g r by (subst ocr_attempts.simps) simp
  then show ?thesis using c s by blast
qed

lemma ocr_step_raise:
  assumes "a \<le> max_retries" and "fst (svc (calls w) img) = Raises e"
  shows "\<exists>w'. ocr_attempts svc img a w = ocr_attempts svc img (Suc a) w'
              \<and> calls w' = Suc (calls w)
              \<and> slept w' = slept w @ [ocr_sleep_seconds e a]"
proof -
  obtain r w1 where g: "generate_content svc img (wait_for_rate_limit w) = (r, w1)"
    by (cases "generate_content svc img (wait_for_rate_limit w)")
  from try_call [OF g] assms(2) have r: "r = Raises e"
    and c: "calls w1 = Suc (calls w)" and s: "slept w1 = slept w" by simp_all
  define w2 where
    "w2 = (sleep (ocr_sleep_seconds e a) w1)\<lparr>slept := slept w1 @ [ocr_sleep_seconds e a]\<rparr>"
  have "ocr_attempts svc img a w = ocr_attempts svc img (Suc a) w2"
    using assms(1) g r by (subst ocr_attempts.simps) (simp add: w2_def Let_def)
  moreover have "calls w2 = Suc (calls w)" using c by (simp add: w2_def sleep_def)
  moreover have "slept w2 = slept w @ [ocr_sleep_seconds e a]"
    using s by (simp add: w2_def)
  ultimately show ?thesis by blast
qed

lemma ocr_skip:
  assumes "a + K \<le> Suc max_retries"
    and "\<forall>j<K. raises (fst (svc (calls w + j) img))"
  shows "\<exists>w'. ocr_attempts svc img a w = ocr_attempts svc img (a + K) w'
              \<and> calls w' = calls w + K
              \<and> slept w' = slept w @
                   map (\<lambda>j. ocr_sleep_seconds (message (fst (svc (calls w + j) img))) (a + j))
                     [0..<K]"
  using assms
proof (induction K)
  case 0
  then show ?case by (intro exI [of _ w]) simp
next
  case (Suc K)
  then obtain w1 where w1: "ocr_attempts svc img a w = ocr_attempts svc img (a + K) w1"
    and c1: "calls w1 = calls w + K"
    and s1: "slept w1 = slept w @
               map (\<lambda>j. ocr_sleep_seconds (message (fst (svc (calls w + j) img))) (a + j))
                 [0..<K]"
    by force
  have le: "a + K \<le> max_retries" using Suc.prems(1) by simp
  have "raises (fst (svc (calls w + K) img))" using Suc.prems(2) by simp
  then have "fst (svc (calls w1) img) = Raises (message (fst (svc (calls w + K) img)))"
    using c1 raises_message by simp
  with le have "\<exists>w2. ocr_attempts svc img (a + K) w1 = ocr_attempts svc img (Suc (a + K)) w2
      \<and> calls w2 = Suc (calls w1)
      \<and> slept w2 = slept w1 @
               [ocr_sleep_seconds (message (fst (svc (calls w + K) img))) (a + K)]"
    by (rule ocr_step_raise)
  then obtain w2 where
    w2: "ocr_attempts svc img (a + K) w1 = ocr_attempts svc img (Suc (a + K)) w2"
    and c2: "calls w2 = Suc (calls w1)"
    and s2: "slept w2 = slept w1 @
               [ocr_sleep_seconds (message (fst (svc (calls w + K) img))) (a + K)]"
    by blast
  show ?case
    using w1 w2 c1 c2 s1 s2 by (intro exI [of _ w2]) simp
qed


lemma tr_exhausted: "max_retries < a \<Longrightarrow> translation_attempts F svc x a w = (F, w)"
  by (subst translation_attempts.simps) simp

lemma tr_step_return:
  assumes "a \<le> max_retries" and "fst (svc (calls w) x) = Returns t" and "strip t \<noteq> []"
  shows "\<exists>w'. translation_attempts F svc x a w = (strip t, w') \<and> calls w' = Suc (calls w)
              \<and> slept w' = slept w"
proof -
  obtain r w1 where g: "generate_content svc x (wait_for_rate_limit w) = (r, w1)"
    by (cases "generate_content svc x (wait_for_rate_limit w)")
  from try_call [OF g] assms(2) have r: "r = Returns t"
    and c: "calls w1 = Suc (calls w)" and s: "slept w1 = slept w" by simp_all
  have "translation_attempts F svc x a w = (strip t, w1)"
    using assms(1,3) g r by (subst translation_attempts.simps) simp
  then show ?thesis using c s by blast
qed

lemma tr_step_fail:
  assumes "a \<le> max_retries" and "fails (fst (svc (calls w) x))"
  shows "\<exists>w'. translation_attempts F svc x a w = translation_attempts F svc x (Suc a) w'
              \<and> calls w' = Suc (calls w)
              \<and> slept w' = slept w @
                    (if raises (fst (svc (calls w) x)) then [backoff a] else [])"
proof -
  obtain r w1 where g: "generate_content svc x (wait_for_rate_limit w) = (r, w1)"
    by (cases "generate_content svc x (wait_for_rate_limit w)")
  from try_call [OF g] have r: "r = fst (svc (calls w) x)"
    and c: "calls w1 = Suc (calls w)" and s: "slept w1 = slept w" by simp_all
  show ?thesis
  proof (cases r)
    case (Raises e)
    define w2 where "w2 = (sleep (backoff a) w1)\<lparr>slept := slept w1 @ [backoff a]\<rparr>"
    have "translation_attempts F svc x a w = translation_attempts F svc x (Suc a) w2"
      using assms(1) g Raises by (subst translation_attempts.simps) (simp add: w2_def Let_def)
    moreover have "calls w2 = Suc (calls w)" using c by (simp add: w2_def sleep_def)
    moreover have "slept w2 = slept w @ [backoff a]" using s by (simp add: w2_def)
    moreover have "raises (fst (svc (calls w) x))"
    proof -
      have "fst (svc (calls w) x) = Raises e" using r Raises by simp
      then show ?thesis by (simp add: raises_def)
    qed
    ultimately show ?thesis by (intro exI [of _ w2]) simp
  next
    case (Returns t)
    then have b: "strip t = []" using assms(2) r by (simp add: fails_def)
    have "translation_attempts F svc x a w = translation_attempts F svc x (Suc a) w1"
      using assms(1) g Returns b by (subst translation_attempts.simps) simp
    moreover have "\<not> raises (fst (svc (calls w) x))"
    proof -
      have "fst (svc (calls w) x) = Returns t" using r Returns by simp
      then show ?thesis by (simp add: raises_def)
    qed
    ultimately show ?thesis using c s by (intro exI [of _ w1]) simp
  qed
qed

lemma tr_skip:
  assumes "a + K \<le> Suc max_retries"
    and "\<forall>j<K. fails (fst (svc (calls w + j) x))"
  shows "\<exists>w'. translation_attempts F svc x a w = translation_attempts F svc x (a + K) w'
              \<and> calls w' = calls w + K
              \<and> slept w' = slept w @
                   map (\<lambda>j. backoff (a + j))
                     (filter (\<lambda>j. raises (fst (svc (calls w + j) x))) [0..<K])"
  using assms
proof (induction K)
  case 0
  then show ?case by (intro exI [of _ w]) simp
next
  case (Suc K)
  then obtain w1 where
    w1: "translation_attempts F svc x a w = translation_attempts F svc x (a + K) w1"
    and c1: "calls w1 = calls w + K"
    and s1: "slept w1 = slept w @
               map (\<lambda>j. backoff (a + j))
                 (filter (\<lambda>j. raises (fst (svc (calls w + j) x))) [0..<K])"
    by force
  have le: "a + K \<le> max_retries" using Suc.prems(1) by simp
  have "fails (fst (svc (calls w1) x))" using Suc.prems(2) c1 by simp
  with le have "\<exists>w2. translation_attempts F svc x (a + K) w1
           = translation_attempts F svc x (Suc (a + K)) w2
      \<and> calls w2 = Suc (calls w1)
      \<and> slept w2 = slept w1 @
               (if raises (fst (svc (calls w1) x)) then [backoff (a + K)] else [])"
    by (rule tr_step_fail)
  then obtain w2 where
    w2: "translation_attempts F svc x (a + K) w1
           = translation_attempts F svc x (Suc (a + K)) w2"
    and c2: "calls w2 = Suc (calls w1)"
    and s2: "slept w2 = slept w1 @
               (if raises (fst (svc (calls w1) x)) then [backoff (a + K)] else [])"
    by blast
  show ?case
    using w1 w2 c1 c2 s1 s2 by (intro exI [of _ w2]) simp
qed

lemma ocr_run:
  assumes "K \<le> 12"
    and "\<forall>j<K. raises (fst (svc (calls w + j) img))"
    and "K < 12 \<longrightarrow> fst (svc (calls w + K) img) = Returns t"
  shows "\<exists>w'. ocr_with_gemini svc img w = (if K < 12 then t else [], w')
           \<and> calls w' = calls w + (if K < 12 then K + 1 else 12)
           \<and> slept w' = slept w @
                map (\<lambda>j. ocr_sleep_seconds (message (fst (svc (calls w + j) img))) (Suc j))
                  [0..<K]"
proof -
  have "1 + K \<le> Suc max_retries" using assms(1) by (simp add: max_retries_def)
  from ocr_skip [where a = 1 and K = K and svc = svc and w = w and img = img, OF this assms(2)]
  obtain w1 where
    w1: "ocr_attempts svc img 1 w = ocr_attempts svc img (1 + K) w1"
    and c1: "calls w1 = calls w + K"
    and s1: "slept w1 = slept w @
               map (\<lambda>j. ocr_sleep_seconds (message (fst (svc (calls w + j) img))) (1 + j))
                 [0..<K]"
    by blast
  show ?thesis
  proof (cases "K < 12")
    case True
    then have le: "1 + K \<le> max_retries" by (simp add: max_retries_def)
    have "fst (svc (calls w1) img) = Returns t" using True assms(3) c1 by simp
    with le have "\<exists>w'. ocr_attempts svc img (1 + K) w1 = (t, w') \<and> calls w' = Suc (calls w1)
        \<and> slept w' = slept w1"
      by (rule ocr_step_return)
    then obtain w2 where "ocr_attempts svc img (1 + K) w1 = (t, w2)"
      and "calls w2 = Suc (calls w1)" and "slept w2 = slept w1" by blast
    then show ?thesis
      using True w1 c1 s1 by (intro exI [of _ w2]) (simp add: ocr_with_gemini_def)
  next
    case False
    then have "max_retries < 1 + K" using assms(1) by (simp add: max_retries_def)
    then have "ocr_attempts svc img (1 + K) w1 = ([], w1)" by (rule ocr_exhausted)
    then show ?thesis
      using False assms(1) w1 c1 s1 by (intro exI [of _ w1]) (simp add: ocr_with_gemini_def)
  qed
qed

lemma tr_run:
  assumes "K \<le> 12"
    and "\<forall>j<K. fails (fst (svc (calls w + j) x))"
    and "K < 12 \<longrightarrow> fst (svc (calls w + K) x) = Returns u \<and> strip u \<noteq> []"
  shows "\<exists>w'. translation_attempts F svc x 1 w = (if K < 12 then strip u else F, w')
           \<and> calls w' = calls w + (if K < 12 then K + 1 else 12)
           \<and> slept w' = slept w @
                map (\<lambda>j. backoff (Suc j))
                  (filter (\<lambda>j. raises (fst (svc (calls w + j) x))) [0..<K])"
proof -
  have "1 + K \<le> Suc max_retries" using assms(1) by (simp add: max_retries_def)
  from tr_skip [where a = 1 and K = K and svc = svc and w = w and x = x and F = F,
      OF this assms(2)]
  obtain w1 where
    w1: "translation_attempts F svc x 1 w = translation_attempts F svc x (1 + K) w1"
    and c1: "calls w1 = calls w + K"
    and s1: "slept w1 = slept w @
               map (\<lambda>j. backoff (1 + j))
                 (filter (\<lambda>j. raises (fst (svc (calls w + j) x))) [0..<K])"
    by blast
  show ?thesis
  proof (cases "K < 12")
    case True
    then have le: "1 + K \<le> max_retries" by (simp add: max_retries_def)
    have r: "fst (svc (calls w1) x) = Returns u" and u: "strip u \<noteq> []"
      using True assms(3) c1 by simp_all
    from le r u have "\<exists>w'. translation_attempts F svc x (1 + K) w1 = (strip u, w')
        \<and> calls w' = Suc (calls w1) \<and> slept w' = slept w1"
      by (rule tr_step_return)
    then obtain w2 where "translation_attempts F svc x (1 + K) w1 = (strip u, w2)"
      and "calls w2 = Suc (calls w1)" and "slept w2 = slept w1" by blast
    then show ?thesis
      using True w1 c1 s1 by (intro exI [of _ w2]) simp
  next
    case False
    then have "max_retries < 1 + K" using assms(1) by (simp add: max_retries_def)
    then have "translation_attempts F svc x (1 + K) w1 = (F, w1)" by (rule tr_exhausted)
    then show ?thesis
      using False assms(1) w1 c1 s1 by (intro exI [of _ w1]) simp
  qed
qed

text \<open>
  C3: with at most 12 attempts, when the first \<open>K\<close> attempts fail (the call raises; in
  the translation loops a blank response fails too) and, if \<open>K < 12\<close>, the next attempt
  succeeds, the function returns the value of that attempt after exactly \<open>K + 1\<close> calls;
  when all 12 attempts fail, exactly 12 calls are made and the result is the empty
  string for \<open>ocr_with_gemini\<close>, \<open>[Translation failed]\<close> for \<open>translate_paragraph\<close> and
  \<open>[Urdu translation failed]\<close> for \<open>translate_to_urdu\<close>.  The translation functions
  return the response stripped of surrounding white space.
\<close>

theorem retry_loop_call_count:
  assumes "K \<le> 12"
    and "\<forall>j<K. raises (fst (osvc (calls w + j) img))"
    and "K < 12 \<longrightarrow> fst (osvc (calls w + K) img) = Returns t"
    and "strip para \<noteq> []"
    and "\<forall>j<K. fails (fst (tsvc (calls w + j) para))"
    and "K < 12 \<longrightarrow> fst (tsvc (calls w + K) para) = Returns u \<and> strip u \<noteq> []"
  shows "max_retries = 12
    \<and> fst (ocr_with_gemini osvc img w) = (if K < 12 then t else [])
    \<and> calls (snd (ocr_with_gemini osvc img w)) = calls w + (if K < 12 then K + 1 else 12)
    \<and> fst (translate_paragraph tsvc para w) = (if K < 12 then strip u else ''[Translation failed]'')
    \<and> calls (snd (translate_paragraph tsvc para w)) = calls w + (if K < 12 then K + 1 else 12)
    \<and> fst (translate_to_urdu tsvc para w)
        = (if K < 12 then strip u else ''[Urdu translation failed]'')
    \<and> calls (snd (translate_to_urdu tsvc para w)) = calls w + (if K < 12 then K + 1 else 12)"
proof -
  have nb: "para \<noteq> []" using assms(4) by (auto simp: strip_Nil)
  from ocr_run [where K = K and svc = osvc and w = w and img = img and t = t, OF assms(1-3)]
  obtain w1 where
    "ocr_with_gemini osvc img w = (if K < 12 then t else [], w1)"
    "calls w1 = calls w + (if K < 12 then K + 1 else 12)" by blast
  moreover from tr_run [where K = K and svc = tsvc and w = w and x = para and u = u
      and F = "''[Translation failed]''", OF assms(1) assms(5) assms(6)]
  obtain w2 where
    "translate_paragraph tsvc para w = (if K < 12 then strip u else ''[Translation failed]'', w2)"
    "calls w2 = calls w + (if K < 12 then K + 1 else 12)"
    using nb assms(4) by (auto simp: translate_paragraph_def)
  moreover from tr_run [where K = K and svc = tsvc and w = w and x = para and u = u
      and F = "''[Urdu translation failed]''", OF assms(1) assms(5) assms(6)]
  obtain w3 where
    "translate_to_urdu tsvc para w
       = (if K < 12 then strip u else ''[Urdu translation failed]'', w3)"
    "calls w3 = calls w + (if K < 12 then K + 1 else 12)"
    using nb assms(4) by (auto simp: translate_to_urdu_def)
  ultimately show ?thesis by (simp add: max_retries_def)
qed

theorem retry_loop_call_count_witness:
  "fst (ocr_with_gemini (scripted [(Raises ''quota'', 1), (Raises ''quota'', 1)] (Returns '' Seite 1 '', 2))
         () (start_world 100)) = '' Seite 1 ''
   \<and> calls (snd (ocr_with_gemini
         (scripted [(Raises ''quota'', 1), (Raises ''quota'', 1)] (Returns '' Seite 1 '', 2))
         () (start_world 100))) = 3
   \<and> fst (translate_paragraph
         (scripted [(Raises ''quota'', 1), (Returns ''  '', 1)] (Returns '' Page 1 '', 2))
         ''Seite 1'' (start_world 100)) = ''Page 1''
   \<and> calls (snd (translate_paragraph
         (scripted [(Raises ''quota'', 1), (Returns ''  '', 1)] (Returns '' Page 1 '', 2))
         ''Seite 1'' (start_world 100))) = 3
   \<and> fst (translate_to_urdu
         (scripted [(Raises ''quota'', 1), (Returns ''  '', 1)] (Returns '' Page 1 '', 2))
         ''Seite 1'' (start_world 100)) = ''Page 1''
   \<and> fst (ocr_with_gemini (scripted [] (Raises ''quota'', 1)) () (start_world 100)) = []
   \<and> calls (snd (ocr_with_gemini (scripted [] (Raises ''quota'', 1)) () (start_world 100))) = 12
   \<and> fst (translate_paragraph (scripted [] (Returns '' '', 1)) ''Seite 1'' (start_world 100))
       = ''[Translation failed]''
   \<and> calls (snd (translate_paragraph (scripted [] (Returns '' '', 1)) ''Seite 1''
         (start_world 100))) = 12
   \<and> fst (translate_to_urdu (scripted [] (Returns '' '', 1)) ''Seite 1'' (start_world 100))
       = ''[Urdu translation failed]''
   \<and> calls (snd (translate_to_urdu (scripted [] (Returns '' '', 1)) ''Seite 1''
         (start_world 100))) = 12"
proof -
  let ?o = "scripted [(Raises ''quota'', 1), (Raises ''quota'', 1)] (Returns '' Seite 1 '', 2)
              :: unit service"
  let ?t = "scripted [(Raises ''quota'', 1), (Returns ''  '', 1)] (Returns '' Page 1 '', 2)
              :: string service"
  let ?od = "scripted [] (Raises ''quota'', 1) :: unit service"
  let ?td = "scripted [] (Returns '' '', 1) :: string service"
  let ?w = "start_world 100"
  have c0: "calls ?w = 0" by (simp add: start_world_def)
  have s1: "strip ''Seite 1'' \<noteq> []" by code_simp
  have s2: "strip '' Page 1 '' = ''Page 1''" by code_simp
  have s3: "strip ''  '' = []" by code_simp
  have s4: "strip '' '' = []" by code_simp
  have a1: "(2::nat) \<le> 12" by simp
  have a2: "\<forall>j<2. raises (fst (?o (calls ?w + j) ()))"
    by (simp add: c0 scripted_def raises_def numeral_2_eq_2 All_less_Suc)
  have a3: "(2::nat) < 12 \<longrightarrow> fst (?o (calls ?w + 2) ()) = Returns '' Seite 1 ''"
    by (simp add: c0 scripted_def)
  have a5: "\<forall>j<2. fails (fst (?t (calls ?w + j) ''Seite 1''))"
    by (simp add: c0 scripted_def fails_def s3 numeral_2_eq_2 All_less_Suc)
  have a6: "(2::nat) < 12 \<longrightarrow>
      fst (?t (calls ?w + 2) ''Seite 1'') = Returns '' Page 1 '' \<and> strip '' Page 1 '' \<noteq> []"
    by (simp add: c0 scripted_def s2)
  have b1: "(12::nat) \<le> 12" by simp
  have b2: "\<forall>j<12. raises (fst (?od (calls ?w + j) ()))"
    by (simp add: scripted_def raises_def)
  have b3: "(12::nat) < 12 \<longrightarrow> fst (?od (calls ?w + 12) ()) = Returns []" by simp
  have b5: "\<forall>j<12. fails (fst (?td (calls ?w + j) ''Seite 1''))"
    by (simp add: scripted_def fails_def s4)
  have b6: "(12::nat) < 12 \<longrightarrow>
      fst (?td (calls ?w + 12) ''Seite 1'') = Returns [] \<and> strip [] \<noteq> []" by simp
  show ?thesis
    using retry_loop_call_count [where K = 2 and osvc = "?o" and tsvc = "?t" and w = "?w"
        and img = "()" and para = "''Seite 1''" and t = "'' Seite 1 ''" and u = "'' Page 1 ''",
        OF a1 a2 a3 s1 a5 a6]
      retry_loop_call_count [where K = 12 and osvc = "?od" and tsvc = "?td" and w = "?w"
        and img = "()" and para = "''Seite 1''" and t = "[]" and u = "[]",
        OF b1 b2 b3 s1 b5 b6]
    by (simp add: c0 s2)
qed


section \<open>The retry loops: the sleep after a failed attempt\<close>

lemma backoff_formula: "backoff a = min 60 (2 * 2 ^ (a - 1))"
  by (simp add: backoff_def base_backoff_def)

text \<open>
  C2, as stated, fails at the two translation call sites: their \<open>except\<close> branch does not
  look at the message.  When the first attempt of \<open>translate_paragraph\<close> raises
  \<open>Please retry in 3.5s\<close>, the sleep is 2 seconds, not 4.5.
\<close>

theorem translation_sleep_counterexample:
  "slept (snd (translate_paragraph
       (scripted [(Raises ''Please retry in 3.5s'', 1)] (Returns ''Page 1'', 2))
       ''Seite 1'' (start_world 100))) = [2]
   \<and> slept (snd (translate_paragraph
       (scripted [(Raises ''Please retry in 3.5s'', 1)] (Returns ''Page 1'', 2))
       ''Seite 1'' (start_world 100))) \<noteq> [9 / 2]"
  by code_simp

text \<open>
  C2, amended: in \<open>ocr_with_gemini\<close> the sleep after an attempt that raised is the delay
  that the message suggests plus 1 when the message matches
  \<open>Please retry in <seconds>s\<close> or, failing that, \<open>retry_delay ... seconds: <int>\<close>
  (\<open>Please retry in 3.5s\<close> gives 4.5, \<open>retry_delay { seconds: 10 }\<close> gives 11), and
  \<open>min(60, 2 * 2^(attempt-1))\<close> otherwise.  In \<open>translate_paragraph\<close> and
  \<open>translate_to_urdu\<close> the sleep after an attempt that raised is always
  \<open>min(60, 2 * 2^(attempt-1))\<close>, whatever the message says; a blank response is retried
  without a sleep.  Below, the first \<open>K\<close> attempts fail and attempt \<open>j + 1\<close> is the
  call number \<open>calls w + j\<close> of the run.
\<close>

theorem retry_sleep_policy:
  assumes "K \<le> 12"
    and "\<forall>j<K. raises (fst (osvc (calls w + j) img))"
    and "K < 12 \<longrightarrow> fst (osvc (calls w + K) img) = Returns t"
    and "strip para \<noteq> []"
    and "\<forall>j<K. fails (fst (tsvc (calls w + j) para))"
    and "K < 12 \<longrightarrow> fst (tsvc (calls w + K) para) = Returns u \<and> strip u \<noteq> []"
  shows "slept (snd (ocr_with_gemini osvc img w))
           = slept w @ map (\<lambda>j. ocr_sleep_seconds (message (fst (osvc (calls w + j) img))) (j + 1))
                         [0..<K]
    \<and> (re_search no_flags retry_in_pattern e1 = Some m1
          \<longrightarrow> ocr_sleep_seconds e1 a = float_of (group1 m1) + 1)
    \<and> (re_search no_flags retry_in_pattern e2 = None
          \<and> re_search no_flags retry_delay_pattern e2 = Some m2
          \<longrightarrow> ocr_sleep_seconds e2 a = float_of (group1 m2) + 1)
    \<and> (re_search no_flags retry_in_pattern e3 = None
          \<and> re_search no_flags retry_delay_pattern e3 = None
          \<longrightarrow> ocr_sleep_seconds e3 a = min 60 (2 * 2 ^ (a - 1)))
    \<and> ocr_sleep_seconds ''Please retry in 3.5s'' a = 9 / 2
    \<and> ocr_sleep_seconds ''retry_delay { seconds: 10 }'' a = 11
    \<and> slept (snd (translate_paragraph tsvc para w))
           = slept w @ map (\<lambda>j. min 60 (2 * 2 ^ j))
                         (filter (\<lambda>j. raises (fst (tsvc (calls w + j) para))) [0..<K])
    \<and> slept (snd (translate_to_urdu tsvc para w))
           = slept w @ map (\<lambda>j. min 60 (2 * 2 ^ j))
                         (filter (\<lambda>j. raises (fst (tsvc (calls w + j) para))) [0..<K])"
proof -
  have nb: "para \<noteq> []" using assms(4) by (auto simp: strip_Nil)
  have bk: "\<And>j. backoff (Suc j) = min 60 (2 * 2 ^ j)" by (simp add: backoff_formula)
  from ocr_run [where K = K and svc = osvc and w = w and img = img and t = t, OF assms(1-3)]
  have o: "slept (snd (ocr_with_gemini osvc img w))
           = slept w @ map (\<lambda>j. ocr_sleep_seconds (message (fst (osvc (calls w + j) img))) (j + 1))
                         [0..<K]"
    by auto
  from tr_run [where K = K and svc = tsvc and w = w and x = para and u = u
      and F = "''[Translation failed]''", OF assms(1) assms(5) assms(6)]
  have p: "slept (snd (translate_paragraph tsvc para w))
           = slept w @ map (\<lambda>j. min 60 (2 * 2 ^ j))
                         (filter (\<lambda>j. raises (fst (tsvc (calls w + j) para))) [0..<K])"
    using nb assms(4) by (auto simp: translate_paragraph_def bk)
  from tr_run [where K = K and svc = tsvc and w = w and x = para and u = u
      and F = "''[Urdu translation failed]''", OF assms(1) assms(5) assms(6)]
  have q: "slept (snd (translate_to_urdu tsvc para w))
           = slept w @ map (\<lambda>j. min 60 (2 * 2 ^ j))
                         (filter (\<lambda>j. raises (fst (tsvc (calls w + j) para))) [0..<K])"
    using nb assms(4) by (auto simp: translate_to_urdu_def bk)
  have g1: "re_search no_flags retry_in_pattern e1 = Some m1
          \<longrightarrow> ocr_sleep_seconds e1 a = float_of (group1 m1) + 1"
    by (simp add: ocr_sleep_seconds_def)
  have g2: "re_search no_flags retry_in_pattern e2 = None
          \<and> re_search no_flags retry_delay_pattern e2 = Some m2
          \<longrightarrow> ocr_sleep_seconds e2 a = float_of (group1 m2) + 1"
    by (simp add: ocr_sleep_seconds_def)
  have g3: "re_search no_flags retry_in_pattern e3 = None
          \<and> re_search no_flags retry_delay_pattern e3 = None
          \<longrightarrow> ocr_sleep_seconds e3 a = min 60 (2 * 2 ^ (a - 1))"
    by (simp add: ocr_sleep_seconds_def backoff_formula)
  have x1: "ocr_sleep_seconds ''Please retry in 3.5s'' a = 9 / 2" by code_simp
  have x2: "ocr_sleep_seconds ''retry_delay { seconds: 10 }'' a = 11" by code_simp
  show ?thesis using o g1 g2 g3 x1 x2 p q by blast
qed

theorem retry_sleep_policy_witness:
  "re_search no_flags retry_in_pattern ''Please retry in 3.5s'' = Some ([''3.5s'', ''s''], [])
   \<and> re_search no_flags retry_delay_pattern ''retry_delay { seconds: 10 }''
       = Some ([''10 }'', '' }''], '' }'')
   \<and> slept (snd (ocr_with_gemini
       (scripted [(Raises ''Please retry in 3.5s'', 1), (Raises ''quota'', 1)]
          (Returns '' Seite 1 '', 2)) () (start_world 100))) = [9 / 2, 4]
   \<and> ocr_sleep_seconds ''Please retry in 3.5s'' 3 = 9 / 2
   \<and> ocr_sleep_seconds ''retry_delay { seconds: 10 }'' 3 = 11
   \<and> ocr_sleep_seconds ''quota'' 3 = 8
   \<and> slept (snd (translate_paragraph
       (scripted [(Raises ''Please retry in 3.5s'', 1), (Returns ''  '', 1)]
          (Returns '' Page 1 '', 2)) ''Seite 1'' (start_world 100))) = [2]
   \<and> slept (snd (translate_to_urdu
       (scripted [(Raises ''Please retry in 3.5s'', 1), (Returns ''  '', 1)]
          (Returns '' Page 1 '', 2)) ''Seite 1'' (start_world 100))) = [2]"
proof -
  let ?o = "scripted [(Raises ''Please retry in 3.5s'', 1), (Raises ''quota'', 1)]
              (Returns '' Seite 1 '', 2) :: unit service"
  let ?t = "scripted [(Raises ''Please retry in 3.5s'', 1), (Returns ''  '', 1)]
              (Returns '' Page 1 '', 2) :: string service"
  let ?w = "start_world 100"
  have c0: "calls ?w = 0" and l0: "slept ?w = []" by (simp_all add: start_world_def)
  have s1: "strip ''Seite 1'' \<noteq> []" by code_simp
  have s2: "strip '' Page 1 '' \<noteq> []" by code_simp
  have s3: "strip ''  '' = []" by code_simp
  have a1: "(2::nat) \<le> 12" by simp
  have a2: "\<forall>j<2. raises (fst (?o (calls ?w + j) ()))"
    by (simp add: c0 scripted_def raises_def numeral_2_eq_2 All_less_Suc)
  have a3: "(2::nat) < 12 \<longrightarrow> fst (?o (calls ?w + 2) ()) = Returns '' Seite 1 ''"
    by (simp add: c0 scripted_def)
  have a5: "\<forall>j<2. fails (fst (?t (calls ?w + j) ''Seite 1''))"
    by (simp add: c0 scripted_def fails_def s3 numeral_2_eq_2 All_less_Suc)
  have a6: "(2::nat) < 12 \<longrightarrow>
      fst (?t (calls ?w + 2) ''Seite 1'') = Returns '' Page 1 '' \<and> strip '' Page 1 '' \<noteq> []"
    by (simp add: c0 scripted_def s2)
  have m1: "re_search no_flags retry_in_pattern ''Please retry in 3.5s''
              = Some ([''3.5s'', ''s''], [])" by code_simp
  have m2: "re_search no_flags retry_in_pattern ''retry_delay { seconds: 10 }'' = None
            \<and> re_search no_flags retry_delay_pattern ''retry_delay { seconds: 10 }''
              = Some ([''10 }'', '' }''], '' }'')" by code_simp
  have m3: "re_search no_flags retry_in_pattern ''quota'' = None
            \<and> re_search no_flags retry_delay_pattern ''quota'' = None" by code_simp
  have r1: "map (\<lambda>j. ocr_sleep_seconds (message (fst (?o (calls ?w + j) ()))) (j + 1)) [0..<2]
              = [9 / 2, 4]" by code_simp
  have r2: "map (\<lambda>j. min 60 (2 * 2 ^ j))
              (filter (\<lambda>j. raises (fst (?t (calls ?w + j) ''Seite 1''))) [0..<2]) = [2::rat]"
    by code_simp
  have r3: "min 60 (2 * 2 ^ (3 - 1)) = (8::rat)" by simp
  note inst = retry_sleep_policy [where K = 2 and osvc = "?o" and tsvc = "?t" and w = "?w"
        and img = "()" and para = "''Seite 1''" and t = "'' Seite 1 ''" and u = "'' Page 1 ''"
        and ?e1.0 = "''Please retry in 3.5s''" and ?m1.0 = "([''3.5s'', ''s''], [])"
        and ?e2.0 = "''retry_delay { seconds: 10 }''" and ?m2.0 = "([''10 }'', '' }''], '' }'')"
        and ?e3.0 = "''quota''" and a = 3,
        OF a1 a2 a3 s1 a5 a6]
  note rest = inst [THEN conjunct2, THEN conjunct2, THEN conjunct2]
  have c1: "slept (snd (ocr_with_gemini ?o () ?w)) = [9 / 2, 4]"
    using inst [THEN conjunct1] by (simp only: l0 r1 append_Nil)
  have c4: "ocr_sleep_seconds ''quota'' 3 = 8"
    using rest [THEN conjunct1] m3 by (simp only: r3 simp_thms)
  have c5: "ocr_sleep_seconds ''Please retry in 3.5s'' 3 = 9 / 2"
    using rest [THEN conjunct2, THEN conjunct1] .
  have c6: "ocr_sleep_seconds ''retry_delay { seconds: 10 }'' 3 = 11"
    using rest [THEN conjunct2, THEN conjunct2, THEN conjunct1] .
  have c7: "slept (snd (translate_paragraph ?t ''Seite 1'' ?w)) = [2]"
    using rest [THEN conjunct2, THEN conjunct2, THEN conjunct2, THEN conjunct1]
    by (simp only: l0 r2 append_Nil)
  have c8: "slept (snd (translate_to_urdu ?t ''Seite 1'' ?w)) = [2]"
    using rest [THEN conjunct2, THEN conjunct2, THEN conjunct2, THEN conjunct2]
    by (simp only: l0 r2 append_Nil)
  show ?thesis using m1 m2 [THEN conjunct2] c1 c4 c5 c6 c7 c8 by (intro conjI)
qed


section \<open>The page loops\<close>

lemma foldl_page_steps:
  fixes step :: "'p document \<times> world \<times> disk \<Rightarrow> 'x \<Rightarrow> 'p document \<times> world \<times> disk"
  assumes step: "\<And>r w x. \<exists>p w'. rel x p \<and> calls w + cost x \<le> calls w'
      \<and> (\<forall>d. step (r, w, d) x
             = (r\<lparr>pages := pages r @ [p]\<rparr>, w', d(out \<mapsto> wrap (r\<lparr>pages := pages r @ [p]\<rparr>))))"
  shows "\<exists>ps w'. list_all2 rel xs ps \<and> calls w + sum_list (map cost xs) \<le> calls w'
      \<and> (\<forall>d. foldl step (r, w, d) xs
             = (r\<lparr>pages := pages r @ ps\<rparr>, w',
                if xs = [] then d else d(out \<mapsto> wrap (r\<lparr>pages := pages r @ ps\<rparr>))))"
proof (induction xs rule: rev_induct)
  case Nil
  show ?case by (intro exI [of _ "[]"] exI [of _ w]) simp
next
  case (snoc x xs)
  then obtain ps w1 where rel: "list_all2 rel xs ps"
    and c1: "calls w + sum_list (map cost xs) \<le> calls w1"
    and f1: "\<And>d. foldl step (r, w, d) xs
             = (r\<lparr>pages := pages r @ ps\<rparr>, w1,
                if xs = [] then d else d(out \<mapsto> wrap (r\<lparr>pages := pages r @ ps\<rparr>)))"
    by blast
  define r1 where "r1 = r\<lparr>pages := pages r @ ps\<rparr>"
  from step [of x w1 r1] obtain p w2 where relp: "rel x p"
    and c2: "calls w1 + cost x \<le> calls w2"
    and f2: "\<And>d. step (r1, w1, d) x
             = (r1\<lparr>pages := pages r1 @ [p]\<rparr>, w2, d(out \<mapsto> wrap (r1\<lparr>pages := pages r1 @ [p]\<rparr>)))"
    by blast
  have r2: "r1\<lparr>pages := pages r1 @ [p]\<rparr> = r\<lparr>pages := pages r @ (ps @ [p])\<rparr>"
    by (simp add: r1_def)
  have "list_all2 rel (xs @ [x]) (ps @ [p])"
    using rel relp by (simp add: list_all2_appendI)
  moreover have "calls w + sum_list (map cost (xs @ [x])) \<le> calls w2"
    using c1 c2 by simp
  moreover have "\<forall>d. foldl step (r, w, d) (xs @ [x])
             = (r\<lparr>pages := pages r @ (ps @ [p])\<rparr>, w2,
                if xs @ [x] = [] then d
                else d(out \<mapsto> wrap (r\<lparr>pages := pages r @ (ps @ [p])\<rparr>)))"
    using f1 f2 r2 by (simp add: r1_def [symmetric])
  ultimately show ?case by blast
qed


lemma translation_attempts_calls_mono:
  "calls w \<le> calls (snd (translation_attempts F svc x a w))"
proof (induction F svc x a w rule: translation_attempts.induct)
  case (1 F svc x attempt w)
  show ?case
  proof (cases "max_retries < attempt")
    case True
    then show ?thesis by (simp add: tr_exhausted)
  next
    case False
    obtain r w1 where g: "generate_content svc x (wait_for_rate_limit w) = (r, w1)"
      by (cases "generate_content svc x (wait_for_rate_limit w)")
    from try_call [OF g] have c: "calls w1 = Suc (calls w)" by simp
    show ?thesis
    proof (cases r)
      case (Returns t)
      show ?thesis
      proof (cases "strip t = []")
        case True
        have "calls w1 \<le> calls (snd (translation_attempts F svc x (Suc attempt) w1))"
          using "1.IH"(2) [OF False g [symmetric] Returns] True by simp
        moreover have "translation_attempts F svc x attempt w
            = translation_attempts F svc x (Suc attempt) w1"
          using False g Returns True by (subst translation_attempts.simps) simp
        ultimately show ?thesis using c by simp
      next
        case nb: False
        then show ?thesis
          using False g Returns c by (subst translation_attempts.simps) simp
      qed
    next
      case (Raises e)
      define w2 where "w2 = (sleep (backoff attempt) w1)\<lparr>slept := slept w1 @ [backoff attempt]\<rparr>"
      have "calls w2 \<le> calls (snd (translation_attempts F svc x (Suc attempt) w2))"
        using "1.IH"(1) [OF False g [symmetric] Raises] by (simp add: w2_def Let_def)
      moreover have "calls w2 = Suc (calls w)" using c by (simp add: w2_def sleep_def)
      moreover have "translation_attempts F svc x attempt w
          = translation_attempts F svc x (Suc attempt) w2"
        using False g Raises by (subst translation_attempts.simps) (simp add: w2_def Let_def)
      ultimately show ?thesis by simp
    qed
  qed
qed


lemma translation_attempts_calls:
  "Suc (calls w) \<le> calls (snd (translation_attempts F svc x 1 w))"
proof -
  have le: "1 \<le> max_retries" by (simp add: max_retries_def)
  show ?thesis
  proof (cases "fails (fst (svc (calls w) x))")
    case True
    with le have "\<exists>w'. translation_attempts F svc x 1 w = translation_attempts F svc x (Suc 1) w'
        \<and> calls w' = Suc (calls w)
        \<and> slept w' = slept w @ (if raises (fst (svc (calls w) x)) then [backoff 1] else [])"
      by (rule tr_step_fail)
    then obtain w' where
      "translation_attempts F svc x 1 w = translation_attempts F svc x (Suc 1) w'"
      and "calls w' = Suc (calls w)" by blast
    then show ?thesis
      using translation_attempts_calls_mono [of w' F svc x "Suc 1"] by simp
  next
    case False
    then obtain t where r: "fst (svc (calls w) x) = Returns t" and nb: "strip t \<noteq> []"
      by (cases "fst (svc (calls w) x)") (auto simp: fails_def)
    from le r nb have "\<exists>w'. translation_attempts F svc x 1 w = (strip t, w')
        \<and> calls w' = Suc (calls w) \<and> slept w' = slept w"
      by (rule tr_step_return)
    then show ?thesis by auto
  qed
qed

lemma translate_paragraph_calls:
  "calls w + nonblank x \<le> calls (snd (translate_paragraph svc x w))"
  using translation_attempts_calls [of w "''[Translation failed]''" svc x]
  by (auto simp: translate_paragraph_def nonblank_def strip_Nil)

lemma translate_to_urdu_calls:
  "calls w + nonblank x \<le> calls (snd (translate_to_urdu svc x w))"
  using translation_attempts_calls [of w "''[Urdu translation failed]''" svc x]
  by (auto simp: translate_to_urdu_def nonblank_def strip_Nil)


lemma translate_step_shape:
  "\<exists>p w'. (page_number p = page_number x \<and> german p = content x)
     \<and> calls w + nonblank (content x) \<le> calls w'
     \<and> (\<forall>d. translate_page_step svc out (r, w, d) x
            = (r\<lparr>pages := pages r @ [p]\<rparr>, w',
               d(out \<mapsto> Translated_json (r\<lparr>pages := pages r @ [p]\<rparr>))))"
proof -
  obtain t w1 where o: "translate_paragraph svc (content x) w = (t, w1)"
    by (cases "translate_paragraph svc (content x) w")
  have "calls w + nonblank (content x) \<le> calls w1"
    using translate_paragraph_calls [of w "content x" svc] o by simp
  then show ?thesis
    using o
    by (intro exI [of _ "\<lparr>page_number = page_number x, german = content x, english = t\<rparr>"]
          exI [of _ w1])
       (simp add: translate_page_step_def Let_def)
qed

lemma urdu_step_shape:
  "\<exists>p w'. (page_number p = page_number x \<and> german p = german x \<and> english p = english x)
     \<and> calls w + nonblank (english x) \<le> calls w'
     \<and> (\<forall>d. urdu_page_step svc out (r, w, d) x
            = (r\<lparr>pages := pages r @ [p]\<rparr>, w',
               d(out \<mapsto> Urdu_json (r\<lparr>pages := pages r @ [p]\<rparr>))))"
proof -
  obtain t w1 where o: "translate_to_urdu svc (english x) w = (t, w1)"
    by (cases "translate_to_urdu svc (english x) w")
  have "calls w + nonblank (english x) \<le> calls w1"
    using translate_to_urdu_calls [of w "english x" svc] o by simp
  then show ?thesis
    using o
    by (intro exI [of _ "\<lparr>page_number = page_number x, german = german x,
                           english = english x, urdu = t\<rparr>"]
          exI [of _ w1])
       (simp add: urdu_page_step_def Let_def)
qed

lemma list_all2_map_eq: "list_all2 (\<lambda>x p. f p = g x) xs ps \<Longrightarrow> map f ps = map g xs"
  by (induction xs ps rule: list_all2_induct) simp_all

lemma foldl_prefix:
  fixes step :: "'p document \<times> world \<times> disk \<Rightarrow> 'x \<Rightarrow> 'p document \<times> world \<times> disk"
  assumes step: "\<And>r w x. \<exists>p w'. rel x p \<and> calls w + cost x \<le> calls w'
      \<and> (\<forall>d. step (r, w, d) x
             = (r\<lparr>pages := pages r @ [p]\<rparr>, w', d(out \<mapsto> wrap (r\<lparr>pages := pages r @ [p]\<rparr>))))"
    and k: "0 < k" "k \<le> length xs"
    and r: "pages r = []"
  shows "snd (snd (foldl step (r, w, d) (take k xs))) out
           = Some (wrap (fst (foldl step (r, w, d) (take k xs))))
    \<and> total_pages (fst (foldl step (r, w, d) (take k xs))) = total_pages r
    \<and> list_all2 rel (take k xs) (pages (fst (foldl step (r, w, d) (take k xs))))
    \<and> pages (fst (foldl step (r, w, d) (take k xs)))
        = take k (pages (fst (foldl step (r, w, d) xs)))
    \<and> foldl step (r, w, d) xs = foldl step (foldl step (r, w, d) (take k xs)) (drop k xs)"
proof -
  have ne: "take k xs \<noteq> []" using k by (cases xs) auto
  from foldl_page_steps [of rel cost step out wrap "take k xs" w r, OF step]
  obtain ps w1 where rel: "list_all2 rel (take k xs) ps"
    and f1: "foldl step (r, w, d) (take k xs)
               = (r\<lparr>pages := pages r @ ps\<rparr>, w1, d(out \<mapsto> wrap (r\<lparr>pages := pages r @ ps\<rparr>)))"
    using ne by auto
  define r1 where "r1 = r\<lparr>pages := pages r @ ps\<rparr>"
  define d1 where "d1 = d(out \<mapsto> wrap r1)"
  have A: "foldl step (r, w, d) (take k xs) = (r1, w1, d1)"
    using f1 by (simp add: r1_def d1_def)
  have split: "foldl step (r, w, d) xs = foldl step (r1, w1, d1) (drop k xs)"
    using foldl_append [of step "(r, w, d)" "take k xs" "drop k xs"] A by simp
  from foldl_page_steps [of rel cost step out wrap "drop k xs" w1 r1, OF step]
  obtain ps2 w2 where
    f2: "\<And>d. \<exists>d'. foldl step (r1, w1, d) (drop k xs) = (r1\<lparr>pages := pages r1 @ ps2\<rparr>, w2, d')"
    by metis
  from f2 [of d1] obtain d2 where
    B: "foldl step (r, w, d) xs = (r1\<lparr>pages := pages r1 @ ps2\<rparr>, w2, d2)"
    using split by auto
  have len: "length ps = k"
    using rel k by (auto dest: list_all2_lengthD)
  have p1: "pages r1 = ps" using r by (simp add: r1_def)
  have "pages (fst (foldl step (r, w, d) xs)) = ps @ ps2" using B p1 by simp
  then have "take k (pages (fst (foldl step (r, w, d) xs))) = ps" using len by simp
  then show ?thesis
    using A split rel p1 by (simp add: d1_def r1_def)
qed




lemma translate_prefix:
  assumes "0 < k" "k \<le> length (pages data)"
  shows "snd (snd (translate_after k svc data out st)) out
           = Some (Translated_json (fst (translate_after k svc data out st)))
    \<and> total_pages (fst (translate_after k svc data out st)) = total_pages data
    \<and> map page_number (pages (fst (translate_after k svc data out st)))
        = take k (map page_number (pages data))
    \<and> map german (pages (fst (translate_after k svc data out st)))
        = take k (map content (pages data))
    \<and> pages (fst (translate_after k svc data out st))
        = take k (pages (fst (translate_json_file svc data out st)))
    \<and> translate_json_file svc data out st
        = foldl (translate_page_step svc out) (translate_after k svc data out st)
            (drop k (pages data))"
proof -
  have r: "pages (translate_start data) = []" by (simp add: translate_start_def)
  note P = foldl_prefix [of "\<lambda>x p. page_number p = page_number x \<and> german p = content x"
      "\<lambda>x. nonblank (content x)" "translate_page_step svc out" out
      Translated_json k "pages data" "translate_start data" "fst st" "snd st",
      OF translate_step_shape assms r]
  note Q = P [folded translate_after_def translate_json_file_def]
  from Q have L: "list_all2 (\<lambda>x p. page_number p = page_number x \<and> german p = content x)
      (take k (pages data)) (pages (fst (translate_after k svc data out st)))"
    by blast
  have "list_all2 (\<lambda>x p. page_number p = page_number x)
      (take k (pages data)) (pages (fst (translate_after k svc data out st)))"
    using L by (rule list_all2_mono) simp
  then have a: "map page_number (pages (fst (translate_after k svc data out st)))
        = take k (map page_number (pages data))"
    by (simp add: list_all2_map_eq take_map)
  have "list_all2 (\<lambda>x p. german p = content x)
      (take k (pages data)) (pages (fst (translate_after k svc data out st)))"
    using L by (rule list_all2_mono) simp
  then have b: "map german (pages (fst (translate_after k svc data out st)))
        = take k (map content (pages data))"
    by (simp add: list_all2_map_eq take_map)
  have t: "total_pages (translate_start data) = total_pages data"
    by (simp add: translate_start_def)
  have c: "total_pages (fst (translate_after k svc data out st)) = total_pages data"
    using Q t by metis
  show ?thesis using Q a b c by blast
qed

lemma urdu_prefix:
  assumes "0 < k" "k \<le> length (pages data)"
  shows "snd (snd (urdu_after k svc data out st)) out
           = Some (Urdu_json (fst (urdu_after k svc data out st)))
    \<and> total_pages (fst (urdu_after k svc data out st)) = total_pages data
    \<and> map page_number (pages (fst (urdu_after k svc data out st)))
        = take k (map page_number (pages data))
    \<and> map german (pages (fst (urdu_after k svc data out st)))
        = take k (map german (pages data))
    \<and> map english (pages (fst (urdu_after k svc data out st)))
        = take k (map english (pages data))
    \<and> pages (fst (urdu_after k svc data out st))
        = take k (pages (fst (translate_json_file_urdu svc data out st)))
    \<and> translate_json_file_urdu svc data out st
        = foldl (urdu_page_step svc out) (urdu_after k svc data out st)
            (drop k (pages data))"
proof -
  have r: "pages (urdu_start data) = []" by (simp add: urdu_start_def)
  note P = foldl_prefix [of
      "\<lambda>x p. page_number p = page_number x \<and> german p = german x \<and> english p = english x"
      "\<lambda>x. nonblank (english x)" "urdu_page_step svc out" out
      Urdu_json k "pages data" "urdu_start data" "fst st" "snd st",
      OF urdu_step_shape assms r]
  note Q = P [folded urdu_after_def translate_json_file_urdu_def]
  from Q have L: "list_all2
      (\<lambda>x p. page_number p = page_number x \<and> german p = german x \<and> english p = english x)
      (take k (pages data)) (pages (fst (urdu_after k svc data out st)))"
    by blast
  have "list_all2 (\<lambda>x p. page_number p = page_number x)
      (take k (pages data)) (pages (fst (urdu_after k svc data out st)))"
    using L by (rule list_all2_mono) simp
  then have a: "map page_number (pages (fst (urdu_after k svc data out st)))
        = take k (map page_number (pages data))"
    by (simp add: list_all2_map_eq take_map)
  have "list_all2 (\<lambda>x p. german p = german x)
      (take k (pages data)) (pages (fst (urdu_after k svc data out st)))"
    using L by (rule list_all2_mono) simp
  then have b: "map german (pages (fst (urdu_after k svc data out st)))
        = take k (map german (pages data))"
    by (simp add: list_all2_map_eq take_map)
  have "list_all2 (\<lambda>x p. english p = english x)
      (take k (pages data)) (pages (fst (urdu_after k svc data out st)))"
    using L by (rule list_all2_mono) simp
  then have c: "map english (pages (fst (urdu_after k svc data out st)))
        = take k (map english (pages data))"
    by (simp add: list_all2_map_eq take_map)
  have t: "total_pages (urdu_start data) = total_pages data"
    by (simp add: urdu_start_def)
  have e: "total_pages (fst (urdu_after k svc data out st)) = total_pages data"
    using Q t by metis
  show ?thesis using Q a b c e by blast
qed


section \<open>The file after every page\<close>




section \<open>A second run on the same document\<close>


lemma foldl_run_facts:
  fixes step :: "'p document \<times> world \<times> disk \<Rightarrow> 'x \<Rightarrow> 'p document \<times> world \<times> disk"
  assumes step: "\<And>r w x. \<exists>p w'. rel x p \<and> calls w + cost x \<le> calls w'
      \<and> (\<forall>d. step (r, w, d) x
             = (r\<lparr>pages := pages r @ [p]\<rparr>, w', d(out \<mapsto> wrap (r\<lparr>pages := pages r @ [p]\<rparr>))))"
  shows "fst (foldl step (r, w, d) xs) = fst (foldl step (r, w, d') xs)
    \<and> fst (snd (foldl step (r, w, d) xs)) = fst (snd (foldl step (r, w, d') xs))
    \<and> calls w + sum_list (map cost xs) \<le> calls (fst (snd (foldl step (r, w, d) xs)))
    \<and> (xs \<noteq> [] \<longrightarrow>
         snd (snd (foldl step (r, w, d) xs)) out = Some (wrap (fst (foldl step (r, w, d) xs))))"
proof -
  from foldl_page_steps [of rel cost step out wrap xs w r, OF step]
  obtain ps w1 where c: "calls w + sum_list (map cost xs) \<le> calls w1"
    and f: "\<And>d. foldl step (r, w, d) xs
             = (r\<lparr>pages := pages r @ ps\<rparr>, w1,
                if xs = [] then d else d(out \<mapsto> wrap (r\<lparr>pages := pages r @ ps\<rparr>)))"
    by blast
  show ?thesis using c by (simp add: f)
qed



lemma translate_run_facts:
  "fst (translate_json_file tsvc data out (w, d))
       = fst (translate_json_file tsvc data out (w, d'))
   \<and> fst (snd (translate_json_file tsvc data out (w, d)))
       = fst (snd (translate_json_file tsvc data out (w, d')))
   \<and> calls w + sum_list (map (\<lambda>x. nonblank (content x)) (pages data))
       \<le> calls (fst (snd (translate_json_file tsvc data out (w, d))))
   \<and> (pages data \<noteq> [] \<longrightarrow>
        snd (snd (translate_json_file tsvc data out (w, d))) out
          = Some (Translated_json (fst (translate_json_file tsvc data out (w, d)))))"
  unfolding translate_json_file_def fst_conv snd_conv
  by (rule foldl_run_facts [of "\<lambda>x p. page_number p = page_number x \<and> german p = content x",
        OF translate_step_shape])

lemma urdu_run_facts:
  "fst (translate_json_file_urdu usvc udata out (w, d))
       = fst (translate_json_file_urdu usvc udata out (w, d'))
   \<and> fst (snd (translate_json_file_urdu usvc udata out (w, d)))
       = fst (snd (translate_json_file_urdu usvc udata out (w, d')))
   \<and> calls w + sum_list (map (\<lambda>x. nonblank (english x)) (pages udata))
       \<le> calls (fst (snd (translate_json_file_urdu usvc udata out (w, d))))
   \<and> (pages udata \<noteq> [] \<longrightarrow>
        snd (snd (translate_json_file_urdu usvc udata out (w, d))) out
          = Some (Urdu_json (fst (translate_json_file_urdu usvc udata out (w, d)))))"
  unfolding translate_json_file_urdu_def fst_conv snd_conv
  by (rule foldl_run_facts [of
        "\<lambda>x p. page_number p = page_number x \<and> german p = german x \<and> english p = english x",
        OF urdu_step_shape])




section \<open>What happens when the retries are used up\<close>

declare replace.simps [simp del] str_nat.simps [simp del]

lemma translate_segment_requests:
  "requests (snd (translate_segment lsvc seg st)) = Suc (requests st)"
  by (simp add: translate_segment_def split: local_reply.splits)

lemma translate_segment_None:
  "fst (translate_segment lsvc seg st) = None \<longleftrightarrow> lsvc (requests st) seg = Failed"
  by (simp add: translate_segment_def split: local_reply.splits)

lemma append_file_requests: "requests (append_file path t st) = requests st"
  by (simp add: append_file_def)

lemma translate_segments_exit:
  "fst (translate_segment lsvc seg st) = None \<Longrightarrow>
     translate_segments lsvc out ((i, seg) # later) st = (Exited, snd (translate_segment lsvc seg st))"
  by (cases "translate_segment lsvc seg st") simp

lemma process_files_exit:
  assumes "outputs st (replace ''.json'' (sfx @ ''.txt'') fname) = None"
    and "extract_text_from_json repr loaded \<noteq> []"
    and "fst (translate_segments lsvc (replace ''.json'' (sfx @ ''.txt'') fname)
           (enumerate0 (extract_text_from_json repr loaded))
           (st\<lparr>outputs := (outputs st)(replace ''.json'' (sfx @ ''.txt'') fname \<mapsto> [])\<rparr>))
         = Exited"
  shows "process_files lsvc repr sfx ((fname, loaded) # rest) st
     = translate_segments lsvc (replace ''.json'' (sfx @ ''.txt'') fname)
         (enumerate0 (extract_text_from_json repr loaded))
         (st\<lparr>outputs := (outputs st)(replace ''.json'' (sfx @ ''.txt'') fname \<mapsto> [])\<rparr>)"
proof -
  obtain s st1 where r: "translate_segments lsvc (replace ''.json'' (sfx @ ''.txt'') fname)
         (enumerate0 (extract_text_from_json repr loaded))
         (st\<lparr>outputs := (outputs st)(replace ''.json'' (sfx @ ''.txt'') fname \<mapsto> [])\<rparr>)
       = (s, st1)"
    by (cases "translate_segments lsvc (replace ''.json'' (sfx @ ''.txt'') fname)
         (enumerate0 (extract_text_from_json repr loaded))
         (st\<lparr>outputs := (outputs st)(replace ''.json'' (sfx @ ''.txt'') fname \<mapsto> [])\<rparr>)")
  then have "s = Exited" using assms(3) by simp
  then show ?thesis using assms(1,2) r by (simp add: Let_def)
qed

lemma translate_segments_bound:
  assumes "\<forall>x. lsvc n x = Failed" and "requests st \<le> n"
  shows "requests (snd (translate_segments lsvc out segs st)) \<le> Suc n
     \<and> (requests (snd (translate_segments lsvc out segs st)) = Suc n
          \<longrightarrow> fst (translate_segments lsvc out segs st) = Exited)"
  using assms(2)
proof (induction segs arbitrary: st)
  case Nil
  then show ?case by simp
next
  case (Cons a segs)
  obtain i seg where a: "a = (i, seg)" by (cases a)
  obtain t st1 where ts: "translate_segment lsvc seg st = (t, st1)"
    by (cases "translate_segment lsvc seg st")
  have r1: "requests st1 = Suc (requests st)"
    using translate_segment_requests [of lsvc seg st] ts by simp
  show ?case
  proof (cases t)
    case None
    then show ?thesis using a ts r1 Cons.prems by simp
  next
    case (Some tr)
    then have "lsvc (requests st) seg \<noteq> Failed"
      using translate_segment_None [of lsvc seg st] ts by simp
    then have "requests st \<noteq> n" using assms(1) by auto
    then have le: "requests st1 \<le> n" using r1 Cons.prems by simp
    show ?thesis
    proof (cases "tr = []")
      case True
      then show ?thesis using a ts Some Cons.IH [OF le] by simp
    next
      case False
      define st2 where "st2 = append_file out
          (''--- Page '' @ str_nat (i + 1) @ '' ---'' @ [newline] @ tr @ [newline, newline]) st1"
      have "requests st2 \<le> n" using le by (simp add: st2_def append_file_requests)
      from Cons.IH [OF this] show ?thesis using a ts Some False by (simp add: st2_def)
    qed
  qed
qed

lemma process_files_bound:
  assumes "\<forall>x. lsvc n x = Failed" and "requests st \<le> n"
  shows "requests (snd (process_files lsvc repr sfx files st)) \<le> Suc n
     \<and> (requests (snd (process_files lsvc repr sfx files st)) = Suc n
          \<longrightarrow> fst (process_files lsvc repr sfx files st) = Exited)"
  using assms(2)
proof (induction files arbitrary: st)
  case Nil
  then show ?case by simp
next
  case (Cons a files)
  obtain fname loaded where a: "a = (fname, loaded)" by (cases a)
  define out where "out = replace ''.json'' (sfx @ ''.txt'') fname"
  define segs where "segs = extract_text_from_json repr loaded"
  define st0 where "st0 = st\<lparr>outputs := (outputs st)(out \<mapsto> [])\<rparr>"
  show ?case
  proof (cases "outputs st out \<noteq> None \<or> segs = []")
    case True
    then have "process_files lsvc repr sfx (a # files) st = process_files lsvc repr sfx files st"
      using a by (auto simp: out_def segs_def Let_def)
    then show ?thesis using Cons.IH [OF Cons.prems] by simp
  next
    case False
    obtain s st1 where r: "translate_segments lsvc out (enumerate0 segs) st0 = (s, st1)"
      by (cases "translate_segments lsvc out (enumerate0 segs) st0")
    have "requests st0 \<le> n" using Cons.prems by (simp add: st0_def)
    from translate_segments_bound [where lsvc = lsvc and n = n and st = st0 and out = out
        and segs = "enumerate0 segs", OF assms(1) this]
    have b: "requests st1 \<le> Suc n" and e: "requests st1 = Suc n \<longrightarrow> s = Exited"
      using r by simp_all
    show ?thesis
    proof (cases s)
      case Exited
      then have "process_files lsvc repr sfx (a # files) st = (Exited, st1)"
        using a False r by (simp add: out_def segs_def st0_def Let_def)
      then show ?thesis using b by simp
    next
      case Completed
      then have le: "requests st1 \<le> n" using b e by auto
      have "process_files lsvc repr sfx (a # files) st = process_files lsvc repr sfx files st1"
        using a False r Completed by (simp add: out_def segs_def st0_def Let_def)
      then show ?thesis using Cons.IH [OF le] by simp
    qed
  qed
qed

lemma foldl_pages_length:
  fixes step :: "'p document \<times> world \<times> disk \<Rightarrow> 'x \<Rightarrow> 'p document \<times> world \<times> disk"
  assumes step: "\<And>r w x. \<exists>p w'. rel x p \<and> calls w + cost x \<le> calls w'
      \<and> (\<forall>d. step (r, w, d) x
             = (r\<lparr>pages := pages r @ [p]\<rparr>, w', d(out \<mapsto> wrap (r\<lparr>pages := pages r @ [p]\<rparr>))))"
    and r: "pages r = []"
  shows "length (pages (fst (foldl step (r, w, d) xs))) = length xs"
proof -
  from foldl_page_steps [of rel cost step out wrap xs w r, OF step]
  obtain ps w1 where l: "list_all2 rel xs ps"
    and f: "\<And>d. foldl step (r, w, d) xs
             = (r\<lparr>pages := pages r @ ps\<rparr>, w1,
                if xs = [] then d else d(out \<mapsto> wrap (r\<lparr>pages := pages r @ ps\<rparr>)))"
    by blast
  have "length ps = length xs" using l by (simp add: list_all2_lengthD)
  then show ?thesis using r by (simp add: f)
qed

lemma translate_after_length:
  "k \<le> length (pages data) \<Longrightarrow> length (pages (fst (translate_after k svc data out st))) = k"
  unfolding translate_after_def
  using foldl_pages_length [of "\<lambda>x p. page_number p = page_number x \<and> german p = content x"
      "\<lambda>x. nonblank (content x)" "translate_page_step svc out" out Translated_json
      "translate_start data" "fst st" "snd st" "take k (pages data)", OF translate_step_shape]
  by (simp add: translate_start_def)

lemma translate_after_all:
  "translate_after (length (pages data)) svc data out st = translate_json_file svc data out st"
  by (simp add: translate_after_def translate_json_file_def)

lemma translate_sentinel:
  assumes i: "i < length (pages data)"
    and nb: "strip (content (pages data ! i)) \<noteq> []"
    and f: "\<forall>j<12. fails (fst (svc
              (calls (fst (snd (translate_after i svc data out st))) + j)
              (content (pages data ! i))))"
  shows "english (pages (fst (translate_json_file svc data out st)) ! i) = ''[Translation failed]''
    \<and> length (pages (fst (translate_json_file svc data out st))) = length (pages data)
    \<and> snd (snd (translate_json_file svc data out st)) out
        = Some (Translated_json (fst (translate_json_file svc data out st)))"
proof -
  obtain r w d where A: "translate_after i svc data out st = (r, w, d)"
    by (cases "translate_after i svc data out st")
  define x where "x = pages data ! i"
  have len: "length (pages r) = i"
    using translate_after_length [of i data svc out st] i A by simp
  have tk: "take (Suc i) (pages data) = take i (pages data) @ [x]"
    using i by (simp add: take_Suc_conv_app_nth x_def)
  have S: "translate_after (Suc i) svc data out st = translate_page_step svc out (r, w, d) x"
    using A by (simp add: translate_after_def tk)
  have f': "\<forall>j<12. fails (fst (svc (calls w + j) (content x)))"
    using f A by (simp add: x_def)
  have "\<exists>w'. translation_attempts ''[Translation failed]'' svc (content x) 1 w
           = (if (12::nat) < 12 then strip [] else ''[Translation failed]'', w')
         \<and> calls w' = calls w + (if (12::nat) < 12 then 12 + 1 else 12)
         \<and> slept w' = slept w @ map (\<lambda>j. backoff (Suc j))
              (filter (\<lambda>j. raises (fst (svc (calls w + j) (content x)))) [0..<12])"
    by (rule tr_run) (use f' in simp_all)
  then obtain w' where
    "translation_attempts ''[Translation failed]'' svc (content x) 1 w = (''[Translation failed]'', w')"
    by auto
  then have P: "translate_paragraph svc (content x) w = (''[Translation failed]'', w')"
    using nb by (auto simp: translate_paragraph_def x_def strip_Nil)
  have R: "pages (fst (translate_after (Suc i) svc data out st))
      = pages r @ [\<lparr>page_number = page_number x, german = content x,
                     english = ''[Translation failed]''\<rparr>]"
    using S P by (simp add: translate_page_step_def Let_def)
  have si: "0 < Suc i" "Suc i \<le> length (pages data)" using i by simp_all
  have T: "pages (fst (translate_after (Suc i) svc data out st))
      = take (Suc i) (pages (fst (translate_json_file svc data out st)))"
    using translate_prefix [OF si, of svc out st] by blast
  have "pages (fst (translate_json_file svc data out st)) ! i
      = take (Suc i) (pages (fst (translate_json_file svc data out st))) ! i" by simp
  also have "\<dots> = (pages r @ [\<lparr>page_number = page_number x, german = content x,
                     english = ''[Translation failed]''\<rparr>]) ! i"
    using T R by simp
  also have "\<dots> = \<lparr>page_number = page_number x, german = content x,
                     english = ''[Translation failed]''\<rparr>"
    using len by (simp add: nth_append)
  finally have e: "english (pages (fst (translate_json_file svc data out st)) ! i)
      = ''[Translation failed]''" by simp
  have l: "length (pages (fst (translate_json_file svc data out st))) = length (pages data)"
    using translate_after_length [of "length (pages data)" data svc out st]
    by (simp add: translate_after_all)
  have ne: "pages data \<noteq> []" using i by auto
  obtain w0 d0 where st: "st = (w0, d0)" by (cases st)
  have fl: "snd (snd (translate_json_file svc data out st)) out
        = Some (Translated_json (fst (translate_json_file svc data out st)))"
    using translate_run_facts [of svc data out w0 d0 d0] ne unfolding st by blast
  show ?thesis using e l fl by (intro conjI)
qed

lemma urdu_after_length:
  "k \<le> length (pages data) \<Longrightarrow> length (pages (fst (urdu_after k svc data out st))) = k"
  unfolding urdu_after_def
  using foldl_pages_length [of "\<lambda>x p. page_number p = page_number x \<and> german p = german x \<and> english p = english x"
      "\<lambda>x. nonblank (english x)" "urdu_page_step svc out" out Urdu_json
      "urdu_start data" "fst st" "snd st" "take k (pages data)", OF urdu_step_shape]
  by (simp add: urdu_start_def)

lemma urdu_after_all:
  "urdu_after (length (pages data)) svc data out st = translate_json_file_urdu svc data out st"
  by (simp add: urdu_after_def translate_json_file_urdu_def)

lemma urdu_sentinel:
  assumes i: "i < length (pages data)"
    and nb: "strip (english (pages data ! i)) \<noteq> []"
    and f: "\<forall>j<12. fails (fst (svc
              (calls (fst (snd (urdu_after i svc data out st))) + j)
              (english (pages data ! i))))"
  shows "urdu (pages (fst (translate_json_file_urdu svc data out st)) ! i) = ''[Urdu translation failed]''
    \<and> length (pages (fst (translate_json_file_urdu svc data out st))) = length (pages data)
    \<and> snd (snd (translate_json_file_urdu svc data out st)) out
        = Some (Urdu_json (fst (translate_json_file_urdu svc data out st)))"
proof -
  obtain r w d where A: "urdu_after i svc data out st = (r, w, d)"
    by (cases "urdu_after i svc data out st")
  define x where "x = pages data ! i"
  have len: "length (pages r) = i"
    using urdu_after_length [of i data svc out st] i A by simp
  have tk: "take (Suc i) (pages data) = take i (pages data) @ [x]"
    using i by (simp add: take_Suc_conv_app_nth x_def)
  have S: "urdu_after (Suc i) svc data out st = urdu_page_step svc out (r, w, d) x"
    using A by (simp add: urdu_after_def tk)
  have f': "\<forall>j<12. fails (fst (svc (calls w + j) (english x)))"
    using f A by (simp add: x_def)
  have "\<exists>w'. translation_attempts ''[Urdu translation failed]'' svc (english x) 1 w
           = (if (12::nat) < 12 then strip [] else ''[Urdu translation failed]'', w')
         \<and> calls w' = calls w + (if (12::nat) < 12 then 12 + 1 else 12)
         \<and> slept w' = slept w @ map (\<lambda>j. backoff (Suc j))
              (filter (\<lambda>j. raises (fst (svc (calls w + j) (english x)))) [0..<12])"
    by (rule tr_run) (use f' in simp_all)
  then obtain w' where
    "translation_attempts ''[Urdu translation failed]'' svc (english x) 1 w = (''[Urdu translation failed]'', w')"
    by auto
  then have P: "translate_to_urdu svc (english x) w = (''[Urdu translation failed]'', w')"
    using nb by (auto simp: translate_to_urdu_def x_def strip_Nil)
  have R: "pages (fst (urdu_after (Suc i) svc data out st))
      = pages r @ [\<lparr>page_number = page_number x, german = german x,
                     english = english x, urdu = ''[Urdu translation failed]''\<rparr>]"
    using S P by (simp add: urdu_page_step_def Let_def)
  have si: "0 < Suc i" "Suc i \<le> length (pages data)" using i by simp_all
  have T: "pages (fst (urdu_after (Suc i) svc data out st))
      = take (Suc i) (pages (fst (translate_json_file_urdu svc data out st)))"
    using urdu_prefix [OF si, of svc out st] by blast
  have "pages (fst (translate_json_file_urdu svc data out st)) ! i
      = take (Suc i) (pages (fst (translate_json_file_urdu svc data out st))) ! i" by simp
  also have "\<dots> = (pages r @ [\<lparr>page_number = page_number x, german = german x,
                     english = english x, urdu = ''[Urdu translation failed]''\<rparr>]) ! i"
    using T R by simp
  also have "\<dots> = \<lparr>page_number = page_number x, german = german x,
                     english = english x, urdu = ''[Urdu translation failed]''\<rparr>"
    using len by (simp add: nth_append)
  finally have e: "urdu (pages (fst (translate_json_file_urdu svc data out st)) ! i)
      = ''[Urdu translation failed]''" by simp
  have l: "length (pages (fst (translate_json_file_urdu svc data out st))) = length (pages data)"
    using urdu_after_length [of "length (pages data)" data svc out st]
    by (simp add: urdu_after_all)
  have ne: "pages data \<noteq> []" using i by auto
  obtain w0 d0 where st: "st = (w0, d0)" by (cases st)
  have fl: "snd (snd (translate_json_file_urdu svc data out st)) out
        = Some (Urdu_json (fst (translate_json_file_urdu svc data out st)))"
    using urdu_run_facts [of svc data out w0 d0 d0] ne unfolding st by blast
  show ?thesis using e l fl by (intro conjI)
qed

text \<open>
  C6: the two policies for a failure that ends all retries.  In the local-model pipeline,
  when \<open>translate_segment\<close> returns \<open>None\<close> the loop over the segments ends with
  \<open>sys.exit()\<close> whatever segments follow, a file whose segments end so ends the loop over
  the files whatever files follow, and in a whole batch a request number \<open>n\<close> that fails
  is the last one: at most \<open>n + 1\<close> requests are made, and when \<open>n + 1\<close> were made the batch
  has exited.  In the two hosted-model translation stages, when all 12 attempts for page
  \<open>k\<close> (counted from 0) fail, the value of that page is the text \<open>[Translation failed]\<close>
  (\<open>[Urdu translation failed]\<close>), every page of the input is in the result, and the file
  holds the result.
\<close>

theorem failure_policies:
  "(fst (translate_segment lsvc seg lst1) = None \<longrightarrow>
      translate_segments lsvc opath ((i, seg) # later) lst1
        = (Exited, snd (translate_segment lsvc seg lst1)))
   \<and> (outputs lst (replace ''.json'' (sfx @ ''.txt'') fname) = None
        \<and> extract_text_from_json repr loaded \<noteq> []
        \<and> fst (translate_segments lsvc (replace ''.json'' (sfx @ ''.txt'') fname)
             (enumerate0 (extract_text_from_json repr loaded))
             (lst\<lparr>outputs := (outputs lst)(replace ''.json'' (sfx @ ''.txt'') fname \<mapsto> [])\<rparr>))
           = Exited \<longrightarrow>
      process_files lsvc repr sfx ((fname, loaded) # rest) lst
        = translate_segments lsvc (replace ''.json'' (sfx @ ''.txt'') fname)
            (enumerate0 (extract_text_from_json repr loaded))
            (lst\<lparr>outputs := (outputs lst)(replace ''.json'' (sfx @ ''.txt'') fname \<mapsto> [])\<rparr>))
   \<and> ((\<forall>x. lsvc n x = Failed) \<and> requests lst \<le> n \<longrightarrow>
        requests (snd (run_batch lsvc repr sfx listing lst)) \<le> Suc n
      \<and> (requests (snd (run_batch lsvc repr sfx listing lst)) = Suc n
           \<longrightarrow> fst (run_batch lsvc repr sfx listing lst) = Exited))
   \<and> (k < length (pages data) \<and> strip (content (pages data ! k)) \<noteq> []
        \<and> (\<forall>j<12. fails (fst (tsvc
              (calls (fst (snd (translate_after k tsvc data out st))) + j)
              (content (pages data ! k))))) \<longrightarrow>
        english (pages (fst (translate_json_file tsvc data out st)) ! k) = ''[Translation failed]''
      \<and> length (pages (fst (translate_json_file tsvc data out st))) = length (pages data)
      \<and> snd (snd (translate_json_file tsvc data out st)) out
          = Some (Translated_json (fst (translate_json_file tsvc data out st))))
   \<and> (k < length (pages udata) \<and> strip (english (pages udata ! k)) \<noteq> []
        \<and> (\<forall>j<12. fails (fst (usvc
              (calls (fst (snd (urdu_after k usvc udata out st))) + j)
              (english (pages udata ! k))))) \<longrightarrow>
        urdu (pages (fst (translate_json_file_urdu usvc udata out st)) ! k)
          = ''[Urdu translation failed]''
      \<and> length (pages (fst (translate_json_file_urdu usvc udata out st))) = length (pages udata)
      \<and> snd (snd (translate_json_file_urdu usvc udata out st)) out
          = Some (Urdu_json (fst (translate_json_file_urdu usvc udata out st))))"
proof (intro conjI impI)
  assume "fst (translate_segment lsvc seg lst1) = None"
  then show "translate_segments lsvc opath ((i, seg) # later) lst1
        = (Exited, snd (translate_segment lsvc seg lst1))"
    by (rule translate_segments_exit)
next
  assume "outputs lst (replace ''.json'' (sfx @ ''.txt'') fname) = None
        \<and> extract_text_from_json repr loaded \<noteq> []
        \<and> fst (translate_segments lsvc (replace ''.json'' (sfx @ ''.txt'') fname)
             (enumerate0 (extract_text_from_json repr loaded))
             (lst\<lparr>outputs := (outputs lst)(replace ''.json'' (sfx @ ''.txt'') fname \<mapsto> [])\<rparr>))
           = Exited"
  then show "process_files lsvc repr sfx ((fname, loaded) # rest) lst
        = translate_segments lsvc (replace ''.json'' (sfx @ ''.txt'') fname)
            (enumerate0 (extract_text_from_json repr loaded))
            (lst\<lparr>outputs := (outputs lst)(replace ''.json'' (sfx @ ''.txt'') fname \<mapsto> [])\<rparr>)"
    using process_files_exit [of lst sfx fname repr loaded lsvc rest] by blast
next
  assume h: "(\<forall>x. lsvc n x = Failed) \<and> requests lst \<le> n"
  then have a: "\<forall>x. lsvc n x = Failed" and b: "requests lst \<le> n" by simp_all
  note B = process_files_bound [where lsvc = lsvc and n = n and st = lst and repr = repr
      and sfx = sfx and files = "filter (\<lambda>f. ends_with ''.json'' (fst f)) listing", OF a b,
      folded run_batch_def]
  show "requests (snd (run_batch lsvc repr sfx listing lst)) \<le> Suc n" using B by blast
  assume "requests (snd (run_batch lsvc repr sfx listing lst)) = Suc n"
  then show "fst (run_batch lsvc repr sfx listing lst) = Exited" using B by blast
next
  assume h: "k < length (pages data) \<and> strip (content (pages data ! k)) \<noteq> []
        \<and> (\<forall>j<12. fails (fst (tsvc
              (calls (fst (snd (translate_after k tsvc data out st))) + j)
              (content (pages data ! k)))))"
  then have a: "k < length (pages data)" and b: "strip (content (pages data ! k)) \<noteq> []"
    and c: "\<forall>j<12. fails (fst (tsvc
              (calls (fst (snd (translate_after k tsvc data out st))) + j)
              (content (pages data ! k))))" by simp_all
  note S = translate_sentinel [OF a b c]
  show "english (pages (fst (translate_json_file tsvc data out st)) ! k) = ''[Translation failed]''"
    using S by blast
  show "length (pages (fst (translate_json_file tsvc data out st))) = length (pages data)"
    using S by blast
  show "snd (snd (translate_json_file tsvc data out st)) out
          = Some (Translated_json (fst (translate_json_file tsvc data out st)))"
    using S by blast
next
  assume h: "k < length (pages udata) \<and> strip (english (pages udata ! k)) \<noteq> []
        \<and> (\<forall>j<12. fails (fst (usvc
              (calls (fst (snd (urdu_after k usvc udata out st))) + j)
              (english (pages udata ! k)))))"
  then have a: "k < length (pages udata)" and b: "strip (english (pages udata ! k)) \<noteq> []"
    and c: "\<forall>j<12. fails (fst (usvc
              (calls (fst (snd (urdu_after k usvc udata out st))) + j)
              (english (pages udata ! k))))" by simp_all
  note S = urdu_sentinel [OF a b c]
  show "urdu (pages (fst (translate_json_file_urdu usvc udata out st)) ! k)
          = ''[Urdu translation failed]''"
    using S by blast
  show "length (pages (fst (translate_json_file_urdu usvc udata out st))) = length (pages udata)"
    using S by blast
  show "snd (snd (translate_json_file_urdu usvc udata out st)) out
          = Some (Urdu_json (fst (translate_json_file_urdu usvc udata out st)))"
    using S by blast
qed

theorem failure_policies_witness:
  "translate_segments (local_scripted [Response ''Page 1''] Failed) ''a_ur.txt''
       [(1, ''Seite 2''), (2, ''Seite 3'')] (local_start\<lparr>requests := 1\<rparr>)
     = (Exited, snd (translate_segment (local_scripted [Response ''Page 1''] Failed) ''Seite 2''
          (local_start\<lparr>requests := 1\<rparr>)))
   \<and> fst (process_files (local_scripted [Response ''Page 1''] Failed) opaque_repr ''_ur''
        [(''a.json'', Some (JArr [JStr ''Seite 1'', JStr ''Seite 2''])),
         (''b.json'', Some (JArr [JStr ''Seite 3'']))] local_start) = Exited
   \<and> requests (snd (run_batch (local_scripted [Response ''Page 1''] Failed) opaque_repr ''_ur''
        two_files local_start)) = Suc 1
   \<and> fst (run_batch (local_scripted [Response ''Page 1''] Failed) opaque_repr ''_ur''
        two_files local_start) = Exited
   \<and> outputs (snd (run_batch (local_scripted [Response ''Page 1''] Failed) opaque_repr ''_ur''
        two_files local_start)) ''b_ur.txt'' = None
   \<and> english (pages (fst (translate_json_file
        (scripted [(Returns ''Page 1'', 1)] (Raises ''quota'', 1)) five_pages ''out.json''
        (start_world 100, empty_disk))) ! 1) = ''[Translation failed]''
   \<and> length (pages (fst (translate_json_file
        (scripted [(Returns ''Page 1'', 1)] (Raises ''quota'', 1)) five_pages ''out.json''
        (start_world 100, empty_disk)))) = length (pages five_pages)
   \<and> urdu (pages (fst (translate_json_file_urdu
        (scripted [(Returns ''ur'', 1)] (Returns '' '', 1)) five_translated ''out.json''
        (start_world 100, empty_disk))) ! 1) = ''[Urdu translation failed]''
   \<and> length (pages (fst (translate_json_file_urdu
        (scripted [(Returns ''ur'', 1)] (Returns '' '', 1)) five_translated ''out.json''
        (start_world 100, empty_disk)))) = length (pages five_translated)"
proof -
  let ?L = "local_scripted [Response ''Page 1''] Failed"
  let ?T = "scripted [(Returns ''Page 1'', 1)] (Raises ''quota'', 1) :: string service"
  let ?U = "scripted [(Returns ''ur'', 1)] (Returns '' '', 1) :: string service"
  let ?st = "(start_world 100, empty_disk)"
  let ?a = "Some (JArr [JStr ''Seite 1'', JStr ''Seite 2''])"
  let ?rest = "[(''b.json'', Some (JArr [JStr ''Seite 3'']))]"
  have h1: "fst (translate_segment ?L ''Seite 2'' (local_start\<lparr>requests := 1\<rparr>)) = None"
    by code_simp
  have h2: "outputs local_start (replace ''.json'' (''_ur'' @ ''.txt'') ''a.json'') = None
      \<and> extract_text_from_json opaque_repr ?a \<noteq> []
      \<and> fst (translate_segments ?L (replace ''.json'' (''_ur'' @ ''.txt'') ''a.json'')
           (enumerate0 (extract_text_from_json opaque_repr ?a))
           (local_start\<lparr>outputs :=
              (outputs local_start)(replace ''.json'' (''_ur'' @ ''.txt'') ''a.json'' \<mapsto> [])\<rparr>))
         = Exited"
    by code_simp
  have h3: "(\<forall>x. ?L 1 x = Failed) \<and> requests local_start \<le> 1"
    by (simp add: local_scripted_def local_start_def)
  have c4: "calls (fst (snd (translate_after 1 ?T five_pages ''out.json'' ?st))) = 1"
    by code_simp
  have s4: "1 < length (pages five_pages) \<and> strip (content (pages five_pages ! 1)) \<noteq> []"
    by code_simp
  have f4: "\<forall>j<12. fails (fst (?T
      (calls (fst (snd (translate_after 1 ?T five_pages ''out.json'' ?st))) + j)
      (content (pages five_pages ! 1))))"
    unfolding c4 by (simp add: scripted_def fails_def)
  have c5: "calls (fst (snd (urdu_after 1 ?U five_translated ''out.json'' ?st))) = 1"
    by code_simp
  have s5: "1 < length (pages five_translated)
      \<and> strip (english (pages five_translated ! 1)) \<noteq> []"
    by code_simp
  have b5: "strip '' '' = []" by code_simp
  have f5: "\<forall>j<12. fails (fst (?U
      (calls (fst (snd (urdu_after 1 ?U five_translated ''out.json'' ?st))) + j)
      (english (pages five_translated ! 1))))"
    unfolding c5 by (simp add: scripted_def fails_def b5)
  have r3: "requests (snd (run_batch ?L opaque_repr ''_ur'' two_files local_start)) = Suc 1"
    by code_simp
  have o3: "outputs (snd (run_batch ?L opaque_repr ''_ur'' two_files local_start)) ''b_ur.txt''
      = None"
    by code_simp
  note I = failure_policies [where lsvc = "?L" and seg = "''Seite 2''"
      and ?lst1.0 = "local_start\<lparr>requests := 1\<rparr>" and opath = "''a_ur.txt''" and i = 1
      and later = "[(2, ''Seite 3'')]" and lst = local_start and sfx = "''_ur''"
      and fname = "''a.json''" and repr = opaque_repr and loaded = "?a" and rest = "?rest"
      and n = 1 and listing = two_files and k = 1 and data = five_pages and tsvc = "?T"
      and out = "''out.json''" and st = "?st" and udata = five_translated and usvc = "?U"]
  note I1 = I [THEN conjunct1, THEN mp, OF h1]
  note I2 = I [THEN conjunct2, THEN conjunct1, THEN mp, OF h2]
  note I3 = I [THEN conjunct2, THEN conjunct2, THEN conjunct1, THEN mp, OF h3]
  note I4 = I [THEN conjunct2, THEN conjunct2, THEN conjunct2, THEN conjunct1, THEN mp,
      OF conjI [OF s4 [THEN conjunct1] conjI [OF s4 [THEN conjunct2] f4]]]
  note I5 = I [THEN conjunct2, THEN conjunct2, THEN conjunct2, THEN conjunct2, THEN mp,
      OF conjI [OF s5 [THEN conjunct1] conjI [OF s5 [THEN conjunct2] f5]]]
  have p2: "fst (process_files ?L opaque_repr ''_ur'' ((''a.json'', ?a) # ?rest) local_start)
      = Exited"
    using h2 by (simp only: I2)
  have e3: "fst (run_batch ?L opaque_repr ''_ur'' two_files local_start) = Exited"
    using I3 r3 by blast
  show ?thesis using I1 p2 r3 e3 o3 I4 I5 by blast
qed

end
